theory Spec2Isabelle
  imports Complex_Main "HOL-Library.Log_Nat"
begin

section \<open>JavaScript numbers\<close>

text \<open>
  The probability model of the repository is written over the TypeScript type
  \<^verbatim>\<open>number\<close>.  A number is modelled as one of the three non-finite values or a finite
  value.  Finite values are carried as reals and the negative zero is identified with
  zero.  All the comparisons, \<^verbatim>\<open>Math.floor\<close>, \<^verbatim>\<open>Math.min\<close>, \<^verbatim>\<open>Math.max\<close> and the
  four arithmetic operations treat \<^verbatim>\<open>NaN\<close> and the infinities as ECMAScript does.
  The arithmetic of this section is exact on finite values, with neither rounding nor
  overflow; the operations that round to the nearest double are those of the section on
  binary64 arithmetic, where the zero-hit ratio is given with them.
\<close>

datatype jsnum = NaN | NInf | Fin real | PInf

fun isFinite :: "jsnum \<Rightarrow> bool" where
  "isFinite (Fin x) = True"
| "isFinite _ = False"

text \<open>\<^verbatim>\<open>a < b\<close>: false as soon as one side is \<^verbatim>\<open>NaN\<close>.\<close>

fun js_lt :: "jsnum \<Rightarrow> jsnum \<Rightarrow> bool" where
  "js_lt NaN _ = False"
| "js_lt _ NaN = False"
| "js_lt _ NInf = False"
| "js_lt NInf _ = True"
| "js_lt PInf _ = False"
| "js_lt (Fin x) PInf = True"
| "js_lt (Fin x) (Fin y) = (x < y)"

text \<open>\<^verbatim>\<open>a <= b\<close>, \<^verbatim>\<open>a > b\<close> and \<^verbatim>\<open>a === b\<close> on numbers.\<close>

definition js_eq :: "jsnum \<Rightarrow> jsnum \<Rightarrow> bool" where
  "js_eq a b = (a \<noteq> NaN \<and> a = b)"

definition js_le :: "jsnum \<Rightarrow> jsnum \<Rightarrow> bool" where
  "js_le a b = (js_lt a b \<or> js_eq a b)"

definition js_gt :: "jsnum \<Rightarrow> jsnum \<Rightarrow> bool" where
  "js_gt a b = js_lt b a"

fun js_floor :: "jsnum \<Rightarrow> jsnum" where
  "js_floor (Fin x) = Fin (of_int \<lfloor>x\<rfloor>)"
| "js_floor a = a"

text \<open>\<^verbatim>\<open>Math.min\<close> and \<^verbatim>\<open>Math.max\<close> return \<^verbatim>\<open>NaN\<close> when an argument is \<^verbatim>\<open>NaN\<close>.\<close>

definition js_min :: "jsnum \<Rightarrow> jsnum \<Rightarrow> jsnum" where
  "js_min a b = (if a = NaN \<or> b = NaN then NaN else if js_lt b a then b else a)"

definition js_max :: "jsnum \<Rightarrow> jsnum \<Rightarrow> jsnum" where
  "js_max a b = (if a = NaN \<or> b = NaN then NaN else if js_lt a b then b else a)"

fun js_neg :: "jsnum \<Rightarrow> jsnum" where
  "js_neg NaN = NaN"
| "js_neg NInf = PInf"
| "js_neg PInf = NInf"
| "js_neg (Fin x) = Fin (- x)"

fun js_add :: "jsnum \<Rightarrow> jsnum \<Rightarrow> jsnum" where
  "js_add NaN _ = NaN"
| "js_add _ NaN = NaN"
| "js_add PInf NInf = NaN"
| "js_add NInf PInf = NaN"
| "js_add PInf _ = PInf"
| "js_add _ PInf = PInf"
| "js_add NInf _ = NInf"
| "js_add _ NInf = NInf"
| "js_add (Fin x) (Fin y) = Fin (x + y)"

definition js_sub :: "jsnum \<Rightarrow> jsnum \<Rightarrow> jsnum" where
  "js_sub a b = js_add a (js_neg b)"

text \<open>The sign of a number that is not \<^verbatim>\<open>NaN\<close>, used by the infinite cases below.\<close>

fun js_negative :: "jsnum \<Rightarrow> bool" where
  "js_negative NInf = True"
| "js_negative (Fin x) = (x < 0)"
| "js_negative _ = False"

definition js_inf :: "bool \<Rightarrow> jsnum" where
  "js_inf negative = (if negative then NInf else PInf)"

fun js_mul :: "jsnum \<Rightarrow> jsnum \<Rightarrow> jsnum" where
  "js_mul NaN _ = NaN"
| "js_mul _ NaN = NaN"
| "js_mul (Fin x) (Fin y) = Fin (x * y)"
| "js_mul a b =
     (if a = Fin 0 \<or> b = Fin 0 then NaN else js_inf (js_negative a \<noteq> js_negative b))"

text \<open>With the zero unsigned, a division by zero is a division by \<open>+0\<close>.\<close>

fun js_div :: "jsnum \<Rightarrow> jsnum \<Rightarrow> jsnum" where
  "js_div NaN _ = NaN"
| "js_div _ NaN = NaN"
| "js_div (Fin x) (Fin y) =
     (if y = 0 then (if x = 0 then NaN else js_inf (x < 0)) else Fin (x / y))"
| "js_div (Fin x) _ = Fin 0"
| "js_div a (Fin y) = js_inf (js_negative a \<noteq> (y < 0))"
| "js_div _ _ = NaN"

section \<open>The combinatorial ratio engine\<close>

text \<open>
  \<^verbatim>\<open>function clamp(value, min, max) { return Math.max(min, Math.min(max, value)); }\<close>
\<close>

definition clamp :: "jsnum \<Rightarrow> jsnum \<Rightarrow> jsnum \<Rightarrow> jsnum" where
  "clamp v lo hi = js_max lo (js_min hi v)"

text \<open>
  The loop of \<^verbatim>\<open>combination\<close>:
  \<^verbatim>\<open>for (let i = 1; i <= kEff; i += 1) { result *= (n - kEff + i) / i; }\<close>.
  It runs on the floored, finite arguments, which are integers.
\<close>

function combination_loop :: "int \<Rightarrow> int \<Rightarrow> int \<Rightarrow> real \<Rightarrow> real" where
  "combination_loop n kEff i result =
     (if i \<le> kEff
      then combination_loop n kEff (i + 1) (result * (of_int (n - kEff + i) / of_int i))
      else result)"
  by pat_completeness auto
termination
  by (relation "measure (\<lambda>(n, kEff, i, result). nat (kEff + 1 - i))") auto

declare combination_loop.simps [simp del]

text \<open>
  \<^verbatim>\<open>combination(n, k)\<close>.  The guard \<^verbatim>\<open>!Number.isFinite(n) || !Number.isFinite(k)\<close> is the
  case distinction on the two arguments; behind it both are finite.
\<close>

definition combination :: "jsnum \<Rightarrow> jsnum \<Rightarrow> jsnum" where
  "combination n k =
     (case (n, k) of
        (Fin a, Fin b) \<Rightarrow>
          (let n' = \<lfloor>a\<rfloor>; k' = \<lfloor>b\<rfloor> in
           if k' < 0 \<or> k' > n' then Fin 0
           else let kEff = min k' (n' - k') in
                if kEff = 0 then Fin 1
                else Fin (combination_loop n' kEff 1 1))
      | _ \<Rightarrow> Fin 0)"

text \<open>
  The loop of \<^verbatim>\<open>zeroHitHypergeometricRatio\<close>:
  \<^verbatim>\<open>for (let i = 0; i < draws; i += 1) {
       const numerator = nonTargets - i; const denominator = total - i;
       if (numerator <= 0) return 0;
       product *= numerator / denominator; }
     return product;\<close>
  With \<^verbatim>\<open>draws = Infinity\<close> the loop need not end, so the result is optional and
  \<open>None\<close> stands for a call that does not return.  The product is exact here, so it
  cannot underflow; \<open>zeroHit_loop_double\<close> below is the same loop with every operation
  rounded.
\<close>

partial_function (option) zeroHit_loop ::
  "jsnum \<Rightarrow> jsnum \<Rightarrow> jsnum \<Rightarrow> nat \<Rightarrow> jsnum \<Rightarrow> jsnum option" where
  "zeroHit_loop nonTargets total' draws i product' =
     (if js_lt (Fin (real i)) draws
      then (if js_le (js_sub nonTargets (Fin (real i))) (Fin 0) then Some (Fin 0)
            else zeroHit_loop nonTargets total' draws (i + 1)
                   (js_mul product'
                      (js_div (js_sub nonTargets (Fin (real i))) (js_sub total' (Fin (real i))))))
      else Some product')"

declare zeroHit_loop.simps [code]

text \<open>
  \<^verbatim>\<open>zeroHitHypergeometricRatio(total, targetInDeck, draws)\<close>; the two pages of the
  application carry the same text of this function.
\<close>

definition zeroHitHypergeometricRatio :: "jsnum \<Rightarrow> jsnum \<Rightarrow> jsnum \<Rightarrow> jsnum option" where
  "zeroHitHypergeometricRatio total' targetInDeck draws =
     (if js_le draws (Fin 0) then Some (Fin 1)
      else if js_le targetInDeck (Fin 0) then Some (Fin 1)
      else if js_le total' (Fin 0) then Some (Fin 1)
      else if js_gt draws total' then Some (Fin 0)
      else let nonTargets = js_sub total' targetInDeck in
           if js_lt nonTargets (Fin 0) then Some (Fin 0)
           else zeroHit_loop nonTargets total' draws 0 (Fin 1))"

section \<open>The zero-hit ratio in binary64 arithmetic\<close>

text \<open>
  A \<^verbatim>\<open>number\<close> is an IEEE 754 binary64 value, and the running product of
  \<^verbatim>\<open>zeroHitHypergeometricRatio\<close> is a product of factors that are at most 1: a product
  below half the smallest subnormal number is rounded to 0.  For the claim that depends on
  it the function is given a second time, with every subtraction, division and
  multiplication of finite values rounded as ECMAScript rounds them: to the nearest
  double, a tie going to the double with the even significand.

  \<open>rne\<close> rounds a real number to the nearest integer, a tie going to the even one.
\<close>

definition rne :: "real \<Rightarrow> int" where
  "rne r = (if r - of_int \<lfloor>r\<rfloor> < 1 / 2 then \<lfloor>r\<rfloor>
            else if 1 / 2 < r - of_int \<lfloor>r\<rfloor> then \<lfloor>r\<rfloor> + 1
            else if even \<lfloor>r\<rfloor> then \<lfloor>r\<rfloor> else \<lfloor>r\<rfloor> + 1)"

text \<open>
  The exponent of the binade of a real number, \<open>\<lfloor>log 2 \<bar>x\<bar>\<rfloor>\<close>, not below the exponent
  \<open>- 1022\<close> that the subnormal numbers share with the smallest normal ones; and the
  spacing of the doubles in that binade, 52 fraction bits below the exponent.
\<close>

definition binade :: "real \<Rightarrow> int" where
  "binade x = (if x = 0 then - 1022 else max \<lfloor>log 2 \<bar>x\<bar>\<rfloor> (- 1022))"

definition quantum :: "real \<Rightarrow> real" where
  "quantum x = 2 powi (binade x - 52)"

text \<open>
  The multiple of the spacing nearest to \<open>x\<close>.  Below \<open>2 ^ 1024\<close> in magnitude it is the
  double nearest to \<open>x\<close>; a result whose rounded magnitude reaches \<open>2 ^ 1024\<close> overflows to
  the infinity of its sign.
\<close>

definition fl :: "real \<Rightarrow> real" where
  "fl x = of_int (rne (x / quantum x)) * quantum x"

definition dbl :: "real \<Rightarrow> jsnum" where
  "dbl x = (if 2 ^ 1024 \<le> \<bar>fl x\<bar> then js_inf (x < 0) else Fin (fl x))"

text \<open>
  \<^verbatim>\<open>a - b\<close>, \<^verbatim>\<open>a * b\<close> and \<^verbatim>\<open>a / b\<close> on doubles: the exact result of two finite
  operands, rounded.  With an operand that is not finite, and in a division by zero,
  there is nothing to round and the operations are those of the first section.
\<close>

fun d_sub :: "jsnum \<Rightarrow> jsnum \<Rightarrow> jsnum" where
  "d_sub (Fin x) (Fin y) = dbl (x - y)"
| "d_sub a b = js_sub a b"

fun d_mul :: "jsnum \<Rightarrow> jsnum \<Rightarrow> jsnum" where
  "d_mul (Fin x) (Fin y) = dbl (x * y)"
| "d_mul a b = js_mul a b"

fun d_div :: "jsnum \<Rightarrow> jsnum \<Rightarrow> jsnum" where
  "d_div (Fin x) (Fin y) = (if y = 0 then js_div (Fin x) (Fin y) else dbl (x / y))"
| "d_div a b = js_div a b"

text \<open>
  The loop of \<^verbatim>\<open>zeroHitHypergeometricRatio\<close> and the function itself, as above, with
  the rounded operations in \<^verbatim>\<open>total - targetInDeck\<close>, \<^verbatim>\<open>nonTargets - i\<close>, \<^verbatim>\<open>total - i\<close>,
  \<^verbatim>\<open>numerator / denominator\<close> and \<^verbatim>\<open>product *= ...\<close>.  The comparisons are exact.  The
  counter is a natural number: \<^verbatim>\<open>i += 1\<close> is exact as long as \<open>i\<close> is below \<open>2 ^ 53\<close>.
\<close>

partial_function (option) zeroHit_loop_double ::
  "jsnum \<Rightarrow> jsnum \<Rightarrow> jsnum \<Rightarrow> nat \<Rightarrow> jsnum \<Rightarrow> jsnum option" where
  "zeroHit_loop_double nonTargets total' draws i product' =
     (if js_lt (Fin (real i)) draws
      then (if js_le (d_sub nonTargets (Fin (real i))) (Fin 0) then Some (Fin 0)
            else zeroHit_loop_double nonTargets total' draws (i + 1)
                   (d_mul product'
                      (d_div (d_sub nonTargets (Fin (real i))) (d_sub total' (Fin (real i))))))
      else Some product')"

declare zeroHit_loop_double.simps [code]

definition zeroHitHypergeometricRatio_double :: "jsnum \<Rightarrow> jsnum \<Rightarrow> jsnum \<Rightarrow> jsnum option" where
  "zeroHitHypergeometricRatio_double total' targetInDeck draws =
     (if js_le draws (Fin 0) then Some (Fin 1)
      else if js_le targetInDeck (Fin 0) then Some (Fin 1)
      else if js_le total' (Fin 0) then Some (Fin 1)
      else if js_gt draws total' then Some (Fin 0)
      else let nonTargets = d_sub total' targetInDeck in
           if js_lt nonTargets (Fin 0) then Some (Fin 0)
           else zeroHit_loop_double nonTargets total' draws 0 (Fin 1))"

text \<open>The factor \<^verbatim>\<open>numerator / denominator\<close> that the loop computes in its round \<open>i\<close>.\<close>

definition factor_double :: "jsnum \<Rightarrow> jsnum \<Rightarrow> nat \<Rightarrow> jsnum" where
  "factor_double nonTargets total' i =
     d_div (d_sub nonTargets (Fin (real i))) (d_sub total' (Fin (real i)))"

section \<open>The draw-probability model\<close>

datatype KeepMode = Keep | NoKeep

text \<open>
  The summation loop of the no-keep branch of \<^verbatim>\<open>probabilityAtLeastOne\<close>:
  \<^verbatim>\<open>for (let k = 0; k <= kMax; k += 1) {
       const plNumerator = combination(n, k) * combination(36 + l - n, l - k);
       const pl = denomInitial === 0 ? 0 : plNumerator / denomInitial;
       const qLk = zeroHitHypergeometricRatio(36, n - k, l);
       sum += pl * qLk; }\<close>
\<close>

definition plTerm :: "jsnum \<Rightarrow> jsnum \<Rightarrow> jsnum \<Rightarrow> nat \<Rightarrow> jsnum" where
  "plTerm n l denomInitial k =
     (if js_eq denomInitial (Fin 0) then Fin 0
      else js_div
             (js_mul (combination n (Fin (real k)))
                (combination (js_sub (js_add (Fin 36) l) n) (js_sub l (Fin (real k)))))
             denomInitial)"

partial_function (option) noKeep_loop ::
  "jsnum \<Rightarrow> jsnum \<Rightarrow> jsnum \<Rightarrow> jsnum \<Rightarrow> nat \<Rightarrow> jsnum \<Rightarrow> jsnum option" where
  "noKeep_loop n l denomInitial kMax k sumAcc =
     (if js_le (Fin (real k)) kMax
      then (case zeroHitHypergeometricRatio (Fin 36) (js_sub n (Fin (real k))) l of
              None \<Rightarrow> None
            | Some qLk \<Rightarrow>
                noKeep_loop n l denomInitial kMax (k + 1)
                  (js_add sumAcc (js_mul (plTerm n l denomInitial k) qLk)))
      else Some sumAcc)"

declare noKeep_loop.simps [code]

text \<open>
  \<^verbatim>\<open>probabilityAtLeastOne(keepMode, mulliganCount, targetsInDeck, drawsFromDeck)\<close>.
\<close>

definition probabilityAtLeastOne ::
  "KeepMode \<Rightarrow> jsnum \<Rightarrow> jsnum \<Rightarrow> jsnum \<Rightarrow> jsnum option" where
  "probabilityAtLeastOne keepMode mulliganCount targetsInDeck drawsFromDeck =
     (let n = clamp (js_floor targetsInDeck) (Fin 0) (Fin 40);
          l = clamp (js_floor mulliganCount) (Fin 0) (Fin 40);
          m = clamp (js_floor drawsFromDeck) (Fin 0) (Fin 40)
      in case keepMode of
           Keep \<Rightarrow>
             (case zeroHitHypergeometricRatio (Fin 40) n (Fin 4) of None \<Rightarrow> None
              | Some pNoInitial \<Rightarrow>
             (case zeroHitHypergeometricRatio (Fin 36) n l of None \<Rightarrow> None
              | Some pNoMulligan \<Rightarrow>
             (case zeroHitHypergeometricRatio (Fin 36) n m of None \<Rightarrow> None
              | Some pNoDraws \<Rightarrow>
                 (let pNo = js_mul (js_mul pNoInitial pNoMulligan) pNoDraws
                  in Some (clamp (js_sub (Fin 1) pNo) (Fin 0) (Fin 1))))))
         | NoKeep \<Rightarrow>
             (case zeroHitHypergeometricRatio (Fin 36) n m of None \<Rightarrow> None
              | Some qM \<Rightarrow>
                 (let denomInitial = combination (js_add (Fin 36) l) l;
                      kMax = js_min l n
                  in case noKeep_loop n l denomInitial kMax 0 (Fin 0) of None \<Rightarrow> None
                     | Some sumAcc \<Rightarrow>
                         (let pNo = js_mul qM sumAcc
                          in Some (clamp (js_sub (Fin 1) pNo) (Fin 0) (Fin 1))))))"

text \<open>\<^verbatim>\<open>probabilityAtLeastOneKeep(n, l, m)\<close>, the model of the second page.\<close>

definition probabilityAtLeastOneKeep :: "jsnum \<Rightarrow> jsnum \<Rightarrow> jsnum \<Rightarrow> jsnum option" where
  "probabilityAtLeastOneKeep n l m =
     (let nn = clamp (js_floor n) (Fin 0) (Fin 40);
          ll = clamp (js_floor l) (Fin 0) (Fin 4);
          mm = clamp (js_floor m) (Fin 0) (Fin 40)
      in case zeroHitHypergeometricRatio (Fin 36) nn ll of None \<Rightarrow> None
         | Some pNoMulligan \<Rightarrow>
        (case zeroHitHypergeometricRatio (Fin 36) nn mm of None \<Rightarrow> None
         | Some pNoDraws \<Rightarrow>
            (let pNo = js_mul pNoMulligan pNoDraws
             in Some (clamp (js_sub (Fin 1) pNo) (Fin 0) (Fin 1)))))"

section \<open>Specification-level definitions\<close>

text \<open>The value of a finite number.\<close>

fun the_fin :: "jsnum \<Rightarrow> real" where
  "the_fin (Fin x) = x"
| "the_fin _ = 0"

text \<open>
  The contract of \<^verbatim>\<open>combination\<close> in the words of the specification: 0 when an argument
  is not finite or when, after flooring, \<open>k < 0\<close> or \<open>k > n\<close>; otherwise 1 when
  \<open>kEff = min k (n - k)\<close> is 0, and the product of \<open>(n - kEff + i) / i\<close> for
  \<open>i = 1..kEff\<close> otherwise.
\<close>

definition combination_spec :: "jsnum \<Rightarrow> jsnum \<Rightarrow> jsnum" where
  "combination_spec n k =
     (if \<not> isFinite n \<or> \<not> isFinite k then Fin 0
      else let n' = \<lfloor>the_fin n\<rfloor>; k' = \<lfloor>the_fin k\<rfloor> in
           if k' < 0 \<or> k' > n' then Fin 0
           else let kEff = min k' (n' - k') in
                if kEff = 0 then Fin 1
                else Fin (\<Prod>i = 1..kEff. of_int (n' - kEff + i) / of_int i))"

text \<open>
  The zero-hit ratio in the words of the specification.  The loop counter takes the values
  \<open>i = 0, 1, 2, \<dots>\<close> below \<open>draws\<close>; \<open>iterations draws\<close> is their number when
  \<open>draws\<close> is not \<^verbatim>\<open>Infinity\<close> (none for \<^verbatim>\<open>NaN\<close>, \<open>draws\<close> itself for a positive
  integer).
\<close>

definition iterations :: "jsnum \<Rightarrow> nat" where
  "iterations draws = (case draws of Fin d \<Rightarrow> nat \<lceil>d\<rceil> | _ \<Rightarrow> 0)"

text \<open>The factor \<open>(nonTargets - i) / (total - i)\<close>.\<close>

definition factor :: "jsnum \<Rightarrow> jsnum \<Rightarrow> nat \<Rightarrow> jsnum" where
  "factor nonTargets total' i =
     js_div (js_sub nonTargets (Fin (real i))) (js_sub total' (Fin (real i)))"

text \<open>
  The running product over \<open>i = 0..N - 1\<close>, which is 0 as soon as one numerator
  \<open>nonTargets - i\<close> is at most 0.
\<close>

definition running_product :: "jsnum \<Rightarrow> jsnum \<Rightarrow> nat \<Rightarrow> jsnum" where
  "running_product nonTargets total' N =
     (if \<exists>i \<in> {0..<N}. js_le (js_sub nonTargets (Fin (real i))) (Fin 0) then Fin 0
      else foldl (\<lambda>p i. js_mul p (factor nonTargets total' i)) (Fin 1) [0..<N])"

text \<open>The short-circuit rules in their priority order, then the running product.\<close>

definition zeroHit_spec :: "jsnum \<Rightarrow> jsnum \<Rightarrow> jsnum \<Rightarrow> jsnum" where
  "zeroHit_spec total' targetInDeck draws =
     (if js_le draws (Fin 0) then Fin 1
      else if js_le targetInDeck (Fin 0) then Fin 1
      else if js_le total' (Fin 0) then Fin 1
      else if js_gt draws total' then Fin 0
      else if js_lt (js_sub total' targetInDeck) (Fin 0) then Fin 0
      else running_product (js_sub total' targetInDeck) total' (iterations draws))"

text \<open>
  The value of the zero-hit ratio on natural numbers, as a product of real factors; the
  truncated differences make the product 0 exactly when a numerator of the loop is at
  most 0.
\<close>

definition zprod :: "nat \<Rightarrow> nat \<Rightarrow> nat \<Rightarrow> real" where
  "zprod N t d = (\<Prod>j<d. real (N - t - j) / real (N - j))"

definition zr :: "nat \<Rightarrow> nat \<Rightarrow> nat \<Rightarrow> real" where
  "zr N t d =
     (if d = 0 \<or> t = 0 \<or> N = 0 then 1
      else if N < d then 0
      else zprod N t d)"

text \<open>
  The integer that \<^verbatim>\<open>clamp(Math.floor(x), 0, hi)\<close> yields for a number \<open>x\<close> other than
  \<^verbatim>\<open>NaN\<close>.
\<close>

definition count :: "nat \<Rightarrow> jsnum \<Rightarrow> nat" where
  "count hi x = (case x of Fin r \<Rightarrow> nat (max 0 (min (int hi) \<lfloor>r\<rfloor>)) | PInf \<Rightarrow> hi | _ \<Rightarrow> 0)"

text \<open>\<^verbatim>\<open>clamp(Math.floor(x), 0, hi)\<close>: the argument floored and clamped to \<open>[0, hi]\<close>.\<close>

definition floorClamp :: "jsnum \<Rightarrow> nat \<Rightarrow> jsnum" where
  "floorClamp x hi = clamp (js_floor x) (Fin 0) (Fin (real hi))"

text \<open>
  The no-keep policy in the words of the specification.  \<open>terms kMax\<close> is the number of
  indices \<open>k = 0, 1, \<dots>\<close> with \<open>k \<le> kMax\<close> (none for \<^verbatim>\<open>NaN\<close>); \<open>P_l\<close> is the
  probability that exactly \<open>k\<close> of the \<open>n\<close> targets land among the \<open>l\<close> mulligan cards,
  taken to be 0 when \<open>combination(36 + l, l)\<close> is 0; \<open>Q_l\<close> and \<open>Q_m\<close> are the zero-hit
  ratios of the mulligan draws and of the later draws; the miss probability is
  \<open>Q_m\<close> times the sum over \<open>k = 0..min(l, n)\<close> of \<open>P_l(k) * Q_l(k)\<close>.
\<close>

definition terms :: "jsnum \<Rightarrow> nat" where
  "terms kMax = (case kMax of Fin x \<Rightarrow> nat (\<lfloor>x\<rfloor> + 1) | _ \<Rightarrow> 0)"

definition P_l :: "jsnum \<Rightarrow> jsnum \<Rightarrow> nat \<Rightarrow> jsnum" where
  "P_l n l k =
     (if js_eq (combination_spec (js_add (Fin 36) l) l) (Fin 0) then Fin 0
      else js_div
             (js_mul (combination_spec n (Fin (real k)))
                (combination_spec (js_sub (js_add (Fin 36) l) n) (js_sub l (Fin (real k)))))
             (combination_spec (js_add (Fin 36) l) l))"

definition Q_l :: "jsnum \<Rightarrow> jsnum \<Rightarrow> nat \<Rightarrow> jsnum" where
  "Q_l n l k = zeroHit_spec (Fin 36) (js_sub n (Fin (real k))) l"

definition Q_m :: "jsnum \<Rightarrow> jsnum \<Rightarrow> jsnum" where
  "Q_m n m = zeroHit_spec (Fin 36) n m"

definition summation :: "jsnum \<Rightarrow> jsnum \<Rightarrow> jsnum" where
  "summation n l =
     foldl js_add (Fin 0) (map (\<lambda>k. js_mul (P_l n l k) (Q_l n l k)) [0..<terms (js_min l n)])"

definition noKeep_spec :: "jsnum \<Rightarrow> jsnum \<Rightarrow> jsnum \<Rightarrow> jsnum" where
  "noKeep_spec n l m =
     clamp (js_sub (Fin 1) (js_mul (Q_m n m) (summation n l))) (Fin 0) (Fin 1)"

text \<open>The binomial coefficient of two integers, 0 outside \<open>0 \<le> k \<le> n\<close>.\<close>

definition choose_int :: "int \<Rightarrow> int \<Rightarrow> real" where
  "choose_int n k = (if k < 0 \<or> n < k then 0 else real (nat n choose nat k))"

text \<open>
  The summation of the no-keep policy on natural numbers \<open>n\<close> and \<open>l\<close>: the term of index
  \<open>k\<close> and the sum over \<open>k = 0..min(l, n)\<close>.
\<close>

definition noKeepTerm :: "nat \<Rightarrow> nat \<Rightarrow> nat \<Rightarrow> real" where
  "noKeepTerm n l k =
     choose_int (int n) (int k) * choose_int (36 + int l - int n) (int l - int k)
       / real ((36 + l) choose l) * zr 36 (n - k) l"

definition noKeepSum :: "nat \<Rightarrow> nat \<Rightarrow> real" where
  "noKeepSum n l = (\<Sum>k\<le>min l n. noKeepTerm n l k)"

text \<open>
  The zero-hit ratio of \<open>t\<close> targets among \<open>N\<close> cards at a draw count that was floored
  and clamped to \<open>[0, hi]\<close>, and the no-keep sum at a mulligan count that was floored and
  clamped to \<open>[0, 40]\<close>; a count \<^verbatim>\<open>NaN\<close> stays \<^verbatim>\<open>NaN\<close> and ends either loop at once.
\<close>

definition zc :: "nat \<Rightarrow> nat \<Rightarrow> jsnum \<Rightarrow> nat \<Rightarrow> real" where
  "zc N t x hi =
     (if x = NaN then (if t = 0 \<or> N = 0 then 1 else if N < t then 0 else 1)
      else zr N t (count hi x))"

definition sumc :: "nat \<Rightarrow> jsnum \<Rightarrow> real" where
  "sumc n l = (if l = NaN then 0 else noKeepSum n (count 40 l))"

text \<open>
  The order of two results: both calls return, and the first number is at most the second
  (\<^verbatim>\<open>a <= b\<close>, so neither is \<^verbatim>\<open>NaN\<close>).
\<close>

definition prob_le :: "jsnum option \<Rightarrow> jsnum option \<Rightarrow> bool" where
  "prob_le a b = (case (a, b) of (Some x, Some y) \<Rightarrow> js_le x y | _ \<Rightarrow> False)"

section \<open>Arithmetic on finite numbers\<close>

lemma js_le_Fin [simp]: "js_le (Fin x) (Fin y) = (x \<le> y)"
  by (auto simp: js_le_def js_eq_def)

lemma js_gt_Fin [simp]: "js_gt (Fin x) (Fin y) = (y < x)"
  by (simp add: js_gt_def)

lemma js_eq_Fin [simp]: "js_eq (Fin x) (Fin y) = (x = y)"
  by (simp add: js_eq_def)

lemma js_sub_Fin [simp]: "js_sub (Fin x) (Fin y) = Fin (x - y)"
  by (simp add: js_sub_def)

lemma js_min_Fin [simp]: "js_min (Fin x) (Fin y) = Fin (min x y)"
  by (simp add: js_min_def min_def)

lemma js_max_Fin [simp]: "js_max (Fin x) (Fin y) = Fin (max x y)"
  by (simp add: js_max_def max_def)

lemma clamp_Fin [simp]: "clamp (Fin v) (Fin lo) (Fin hi) = Fin (max lo (min hi v))"
  by (simp add: clamp_def)

section \<open>The binomial coefficient\<close>

text \<open>The loop of \<^verbatim>\<open>combination\<close> multiplies the accumulator by the remaining factors.\<close>

lemma combination_loop_prod:
  "1 \<le> i \<Longrightarrow> i \<le> kEff + 1 \<Longrightarrow>
   combination_loop n kEff i r = r * (\<Prod>j = i..kEff. of_int (n - kEff + j) / of_int j)"
proof (induction n kEff i r rule: combination_loop.induct)
  case (1 n kEff i r)
  show ?case
  proof (cases "i \<le> kEff")
    case True
    have split: "{i..kEff} = insert i {i + 1..kEff}"
      using True by auto
    have "combination_loop n kEff i r =
          combination_loop n kEff (i + 1) (r * (of_int (n - kEff + i) / of_int i))"
      using True by (subst combination_loop.simps) simp
    also have "\<dots> = r * (of_int (n - kEff + i) / of_int i) *
                 (\<Prod>j = i + 1..kEff. of_int (n - kEff + j) / of_int j)"
      using "1.IH" [OF True] "1.prems" True by simp
    finally show ?thesis
      by (simp add: split)
  next
    case False
    then have "{i..kEff} = {}" by auto
    with False show ?thesis
      by (subst combination_loop.simps) simp
  qed
qed

lemma combination_is_spec: "combination n k = combination_spec n k"
  by (cases n; cases k)
     (simp_all add: combination_def combination_spec_def Let_def combination_loop_prod)

text \<open>
  Claim C6.  \<^verbatim>\<open>combination(n, k)\<close> returns 0 if an argument is not finite or if, after
  flooring both arguments, \<open>k < 0\<close> or \<open>k > n\<close>; otherwise, with \<open>kEff = min k (n - k)\<close>,
  it returns 1 when \<open>kEff = 0\<close> and the product over \<open>i = 1..kEff\<close> of
  \<open>(n - kEff + i) / i\<close> otherwise.
\<close>

theorem combination_refines_spec: "combination n k = combination_spec n k"
  by (rule combination_is_spec)

theorem combination_refines_spec_witness:
  "combination (Fin 5) (Fin 2) = Fin 10 \<and> combination_spec (Fin 5) (Fin 2) = Fin 10
   \<and> combination PInf (Fin 2) = Fin 0 \<and> combination (Fin 0) (Fin 0) = Fin 1"
  using combination_refines_spec [of "Fin 5" "Fin 2"] combination_refines_spec [of PInf "Fin 2"]
    combination_refines_spec [of "Fin 0" "Fin 0"]
  by (simp add: combination_spec_def set_upto [symmetric] upto_rec1 del: set_upto)

section \<open>The zero-hit ratio\<close>

text \<open>The loop test \<^verbatim>\<open>i < draws\<close> counts up to \<open>iterations draws\<close>.\<close>

lemma js_lt_iterations:
  "draws \<noteq> PInf \<Longrightarrow> js_lt (Fin (real i)) draws \<longleftrightarrow> i < iterations draws"
proof (cases draws)
  case (Fin d)
  have "real i < d \<longleftrightarrow> int i < \<lceil>d\<rceil>"
    by (simp add: less_ceiling_iff)
  then show ?thesis
    using Fin by (auto simp: iterations_def)
qed (simp_all add: iterations_def)

text \<open>
  From counter \<open>i\<close> and accumulator \<open>p\<close> the loop returns 0 if one of the remaining
  numerators is at most 0, and \<open>p\<close> times the remaining factors otherwise.
\<close>

lemma zeroHit_loop_fold:
  assumes "draws \<noteq> PInf"
  shows "i \<le> iterations draws \<Longrightarrow>
    zeroHit_loop nonTargets total' draws i p =
      Some (if \<exists>j \<in> {i..<iterations draws}. js_le (js_sub nonTargets (Fin (real j))) (Fin 0)
            then Fin 0
            else foldl (\<lambda>p i. js_mul p (factor nonTargets total' i)) p [i..<iterations draws])"
proof (induction "iterations draws - i" arbitrary: i p)
  case 0
  then have "\<not> js_lt (Fin (real i)) draws"
    using assms by (simp add: js_lt_iterations)
  with 0 show ?case
    by (subst zeroHit_loop.simps) simp
next
  case (Suc d)
  then have lt: "i < iterations draws" by simp
  then have run: "js_lt (Fin (real i)) draws"
    using assms by (simp add: js_lt_iterations)
  have set_eq: "{i..<iterations draws} = insert i {Suc i..<iterations draws}"
    using lt by auto
  have list_eq: "[i..<iterations draws] = i # [Suc i..<iterations draws]"
    using lt by (simp add: upt_conv_Cons)
  show ?case
  proof (cases "js_le (js_sub nonTargets (Fin (real i))) (Fin 0)")
    case True
    with run show ?thesis
      by (subst zeroHit_loop.simps) (auto simp: set_eq)
  next
    case False
    have "d = iterations draws - Suc i" "Suc i \<le> iterations draws"
      using Suc.hyps(2) lt by simp_all
    note IH = Suc.hyps(1) [OF this, of "js_mul p (factor nonTargets total' i)",
        unfolded factor_def]
    show ?thesis
      using run False
      by (subst zeroHit_loop.simps) (simp add: IH factor_def set_eq list_eq)
  qed
qed

lemma zeroHit_is_spec:
  "draws \<noteq> PInf \<Longrightarrow>
   zeroHitHypergeometricRatio total' targetInDeck draws =
     Some (zeroHit_spec total' targetInDeck draws)"
  using zeroHit_loop_fold [of draws 0 "js_sub total' targetInDeck" total' "Fin 1"]
  by (simp add: zeroHitHypergeometricRatio_def zeroHit_spec_def running_product_def)

text \<open>
  With \<open>draws\<close> equal to \<^verbatim>\<open>Infinity\<close> the loop returns only through a numerator that is
  at most 0; a call that enters it with an infinite or undefined number of non-targets
  does not return.
\<close>

lemma zeroHit_loop_no_exit:
  assumes returns: "zeroHit_loop nonTargets total' draws i p = Some y"
  shows "draws \<noteq> PInf \<or> (\<exists>j. js_le (js_sub nonTargets (Fin (real j))) (Fin 0))"
proof (rule zeroHit_loop.raw_induct
    [where P = "\<lambda>nonTargets total' draws i p y.
       draws \<noteq> PInf \<or> (\<exists>j. js_le (js_sub nonTargets (Fin (real j))) (Fin 0))",
     OF _ returns])
  fix loop nonTargets total' draws i p and y :: jsnum
  assume IH: "\<And>nonTargets total' draws i p y. loop nonTargets total' draws i p = Some y \<Longrightarrow>
      draws \<noteq> PInf \<or> (\<exists>j. js_le (js_sub nonTargets (Fin (real j))) (Fin 0))"
    and eq: "(if js_lt (Fin (real i)) draws
      then if js_le (js_sub nonTargets (Fin (real i))) (Fin 0) then Some (Fin 0)
           else loop nonTargets total' draws (i + 1)
                  (js_mul p (js_div (js_sub nonTargets (Fin (real i))) (js_sub total' (Fin (real i)))))
      else Some p) = Some y"
  show "draws \<noteq> PInf \<or> (\<exists>j. js_le (js_sub nonTargets (Fin (real j))) (Fin 0))"
  proof (cases "draws = PInf \<and> \<not> js_le (js_sub nonTargets (Fin (real i))) (Fin 0)")
    case True
    with eq have "loop nonTargets total' draws (i + 1)
        (js_mul p (js_div (js_sub nonTargets (Fin (real i))) (js_sub total' (Fin (real i))))) = Some y"
      by simp
    then show ?thesis by (rule IH)
  next
    case False
    then show ?thesis by blast
  qed
qed

lemma zeroHit_no_return:
  assumes "draws = PInf" and "\<not> js_le targetInDeck (Fin 0)" and "\<not> js_lt total' PInf"
  shows "zeroHitHypergeometricRatio total' targetInDeck draws = None"
proof (cases "zeroHitHypergeometricRatio total' targetInDeck draws")
  case (Some y)
  have inf: "js_sub total' targetInDeck = NaN \<or> js_sub total' targetInDeck = PInf"
    using assms by (cases total'; cases targetInDeck) (simp_all add: js_sub_def)
  have total: "\<not> js_le total' (Fin 0)"
    using assms by (cases total') (simp_all add: js_le_def js_eq_def)
  from inf have no_lt: "\<not> js_lt (js_sub total' targetInDeck) (Fin 0)"
    by auto
  from inf have no_le: "\<not> js_le (js_sub (js_sub total' targetInDeck) (Fin (real j))) (Fin 0)" for j
    by (auto simp: js_le_def js_eq_def js_sub_def)
  have draws: "\<not> js_le draws (Fin 0)"
    using assms by (simp add: js_le_def js_eq_def)
  have "zeroHit_loop (js_sub total' targetInDeck) total' draws 0 (Fin 1) = Some y"
    using Some assms(2,3) draws total no_lt
    by (simp add: zeroHitHypergeometricRatio_def js_gt_def assms(1) [symmetric])
  from zeroHit_loop_no_exit [OF this] show ?thesis
    using assms no_le by simp
qed simp

text \<open>
  Claim C5.  \<^verbatim>\<open>zeroHitRatio(total, targetInDeck, draws)\<close> applies its short-circuit rules
  in this order: \<open>draws \<le> 0\<close> gives 1, else \<open>targetInDeck \<le> 0\<close> gives 1, else
  \<open>total \<le> 0\<close> gives 1, else \<open>draws > total\<close> gives 0, else
  \<open>total - targetInDeck < 0\<close> gives 0; otherwise it computes the running product over
  \<open>i = 0..draws - 1\<close> of \<open>(nonTargets - i) / (total - i)\<close> and returns 0 as soon as a
  numerator is at most 0.  This holds for every call that does not enter the loop with
  \<open>draws\<close> equal to \<^verbatim>\<open>Infinity\<close>: \<open>draws\<close> is not \<^verbatim>\<open>Infinity\<close>, or there is no target, or
  \<open>total\<close> is below \<^verbatim>\<open>Infinity\<close>.  The other calls do not return (\<open>zeroHit_no_return\<close>).
\<close>

theorem zeroHit_refines_spec:
  "draws \<noteq> PInf \<or> js_le targetInDeck (Fin 0) \<or> js_lt total' PInf \<Longrightarrow>
   zeroHitHypergeometricRatio total' targetInDeck draws =
     Some (zeroHit_spec total' targetInDeck draws)"
proof (cases "draws = PInf")
  case False
  then show ?thesis by (rule zeroHit_is_spec)
next
  case True
  assume "draws \<noteq> PInf \<or> js_le targetInDeck (Fin 0) \<or> js_lt total' PInf"
  with True have "js_le targetInDeck (Fin 0) \<or> js_lt total' PInf" by simp
  then show ?thesis
    using True
    by (cases total')
       (auto simp: zeroHitHypergeometricRatio_def zeroHit_spec_def js_le_def js_eq_def js_gt_def)
qed

theorem zeroHit_refines_spec_witness:
  "Fin 4 \<noteq> PInf \<and> zeroHitHypergeometricRatio (Fin 40) (Fin 3) (Fin 4) = Some (Fin (357 / 494))
   \<and> zeroHit_spec (Fin 40) (Fin 0) (Fin 50) = Fin 1
   \<and> js_lt (Fin 36) PInf \<and> zeroHitHypergeometricRatio (Fin 36) (Fin 3) PInf = Some (Fin 0)"
  using zeroHit_refines_spec [of "Fin 4" "Fin 3" "Fin 40"]
    zeroHit_refines_spec [of PInf "Fin 3" "Fin 36"]
  by (simp add: zeroHit_spec_def running_product_def iterations_def factor_def upt_rec
      js_le_def js_eq_def js_gt_def)

section \<open>The zero-hit ratio on natural numbers\<close>

lemma factor_Fin:
  "b - real j \<noteq> 0 \<Longrightarrow> factor (Fin a) (Fin b) j = Fin ((a - real j) / (b - real j))"
  by (simp add: factor_def)

lemma foldl_factor_Fin:
  "\<forall>j \<in> {i..<N}. b - real j \<noteq> 0 \<Longrightarrow>
   foldl (\<lambda>p i. js_mul p (factor (Fin a) (Fin b) i)) (Fin p) [i..<N] =
     Fin (p * (\<Prod>j = i..<N. (a - real j) / (b - real j)))"
proof (induction N)
  case 0
  then show ?case by simp
next
  case (Suc N)
  show ?case
  proof (cases "i \<le> N")
    case True
    then have "b - real N \<noteq> 0" using Suc.prems by simp
    moreover have "\<forall>j \<in> {i..<N}. b - real j \<noteq> 0" using Suc.prems by simp
    ultimately show ?thesis
      using True Suc.IH by (simp add: factor_Fin)
  next
    case False
    then show ?thesis by simp
  qed
qed

text \<open>Finite arguments that reach the loop.\<close>

lemma zeroHit_spec_real:
  assumes "0 < d" "0 < t" "0 < b" "d \<le> b" "t \<le> b"
  shows "zeroHit_spec (Fin b) (Fin t) (Fin d) =
     Fin (if \<exists>j \<in> {0..<nat \<lceil>d\<rceil>}. b - t - real j \<le> 0 then 0
          else (\<Prod>j = 0..<nat \<lceil>d\<rceil>. (b - t - real j) / (b - real j)))"
proof -
  have "b - real j \<noteq> 0" if "j \<in> {0..<nat \<lceil>d\<rceil>}" for j
  proof -
    from that have "int j < \<lceil>d\<rceil>" by simp
    then have "real j < d" by (simp add: less_ceiling_iff)
    with assms show ?thesis by simp
  qed
  then have "\<forall>j \<in> {0..<nat \<lceil>d\<rceil>}. b - real j \<noteq> 0" by blast
  from foldl_factor_Fin [OF this, of "b - t" 1]
  show ?thesis
    using assms by (simp add: zeroHit_spec_def running_product_def iterations_def)
qed

text \<open>On natural numbers the call returns \<open>zr\<close>.\<close>

lemma zeroHit_nat:
  "zeroHitHypergeometricRatio (Fin (real N)) (Fin (real t)) (Fin (real d)) = Some (Fin (zr N t d))"
proof -
  have fin: "Fin (real d) \<noteq> PInf" by simp
  consider "d = 0 \<or> t = 0 \<or> N = 0" | "0 < d" "0 < t" "0 < N" "N < d"
    | "0 < d" "0 < t" "0 < N" "d \<le> N" "N < t" | "0 < d" "0 < t" "0 < N" "d \<le> N" "t \<le> N"
    by linarith
  then have "zeroHit_spec (Fin (real N)) (Fin (real t)) (Fin (real d)) = Fin (zr N t d)"
  proof cases
    case 1
    then show ?thesis by (auto simp: zeroHit_spec_def zr_def zprod_def)
  next
    case 2
    then show ?thesis by (simp add: zeroHit_spec_def zr_def zprod_def)
  next
    case 3
    then have "(\<Prod>j<d. real (N - t - j) / real (N - j)) = 0"
      by simp
    with 3 show ?thesis by (simp add: zeroHit_spec_def zr_def zprod_def)
  next
    case 4
    have spec: "zeroHit_spec (Fin (real N)) (Fin (real t)) (Fin (real d)) =
       Fin (if \<exists>j \<in> {0..<d}. real N - real t - real j \<le> 0 then 0
            else (\<Prod>j = 0..<d. (real N - real t - real j) / (real N - real j)))"
      using zeroHit_spec_real [of "real d" "real t" "real N"] 4 by simp
    show ?thesis
    proof (cases "\<exists>j \<in> {0..<d}. real N - real t - real j \<le> 0")
      case True
      then obtain j where j: "j < d" "real N - real t - real j \<le> 0" by auto
      then have "N - t - j = 0" by linarith
      with j have "\<exists>j \<in> {..<d}. real (N - t - j) / real (N - j) = 0"
        by (intro bexI [of _ j]) simp_all
      then have "(\<Prod>j<d. real (N - t - j) / real (N - j)) = 0"
        by simp
      with True 4 show ?thesis by (simp add: spec zr_def zprod_def)
    next
      case False
      then have pos: "real N - real t - real j > 0" if "j < d" for j
        using that by (auto simp: not_le)
      have "(\<Prod>j = 0..<d. (real N - real t - real j) / (real N - real j)) =
            (\<Prod>j = 0..<d. real (N - t - j) / real (N - j))"
      proof (rule prod.cong)
        fix j assume "j \<in> {0..<d}"
        then have "j < d" by simp
        from pos [OF this] have "j + t < N" by linarith
        then show "(real N - real t - real j) / (real N - real j) = real (N - t - j) / real (N - j)"
          by simp
      qed simp
      with False 4 show ?thesis by (simp add: spec zr_def zprod_def atLeast0LessThan)
    qed
  qed
  with zeroHit_is_spec [OF fin] show ?thesis by simp
qed

text \<open>Range, zeros and monotonicity of the zero-hit ratio on natural numbers.\<close>

lemma zprod_nonneg: "0 \<le> zprod N t d"
  unfolding zprod_def by (rule prod_nonneg) simp

lemma zr_factor_le1: "real (N - t - j) / real (N - j) \<le> 1"
  by (cases "N - j = 0") (simp_all add: divide_le_eq)

lemma zprod_le1: "zprod N t d \<le> 1"
  unfolding zprod_def by (rule prod_le_1) (use zr_factor_le1 in auto)

lemma zprod_Suc: "zprod N t (Suc d) = zprod N t d * (real (N - t - d) / real (N - d))"
  by (simp add: zprod_def)

lemma zprod_0: "zprod N t 0 = 1"
  by (simp add: zprod_def)

lemma zprod_zero: "N - t < d \<Longrightarrow> zprod N t d = 0"
proof -
  assume a: "N - t < d"
  have "real (N - t - (N - t)) / real (N - (N - t)) = 0" by simp
  with a have "\<exists>j \<in> {..<d}. real (N - t - j) / real (N - j) = 0"
    by (intro bexI [of _ "N - t"]) simp_all
  then show ?thesis by (simp add: zprod_def)
qed

lemma zprod_pos: "d + t \<le> N \<Longrightarrow> 0 < zprod N t d"
  unfolding zprod_def by (rule prod_pos) auto

lemma zr_nonneg: "0 \<le> zr N t d"
  by (simp add: zr_def zprod_nonneg)

lemma zr_le1: "zr N t d \<le> 1"
  by (simp add: zr_def zprod_le1)

lemma zr_pos: "d + t \<le> N \<Longrightarrow> 0 < zr N t d"
  by (simp add: zr_def zprod_pos)

lemma zr_zero: "1 \<le> d \<Longrightarrow> 1 \<le> t \<Longrightarrow> 1 \<le> N \<Longrightarrow> N < d + t \<Longrightarrow> zr N t d = 0"
  by (simp add: zr_def zprod_zero)

lemma zprod_Suc_le: "zprod N t (Suc d) \<le> zprod N t d"
proof -
  have "zprod N t d * (real (N - t - d) / real (N - d)) \<le> zprod N t d * 1"
    by (intro mult_left_mono zr_factor_le1 zprod_nonneg)
  then show ?thesis by (simp add: zprod_Suc)
qed

lemma zr_Suc_draws: "zr N t (Suc d) \<le> zr N t d"
  using zprod_Suc_le [of N t d] zr_le1 [of N t "Suc d"] zprod_nonneg [of N t d]
  by (auto simp: zr_def)

lemma zr_mono_draws: "d \<le> d' \<Longrightarrow> zr N t d' \<le> zr N t d"
  by (induction rule: dec_induct) (auto intro: order_trans [OF zr_Suc_draws])

lemma zprod_mono_targets: "t \<le> t' \<Longrightarrow> zprod N t' d \<le> zprod N t d"
  unfolding zprod_def by (intro prod_mono) (auto intro!: divide_right_mono)

lemma zr_mono_targets: "t \<le> t' \<Longrightarrow> zr N t' d \<le> zr N t d"
  using zprod_mono_targets [of t t' N d] zr_le1 [of N t' d]
  by (auto simp: zr_def)

section \<open>Flooring and clamping the arguments\<close>

lemma clamp_floor_count:
  "x \<noteq> NaN \<Longrightarrow> clamp (js_floor x) (Fin 0) (Fin (real hi)) = Fin (real (count hi x))"
proof (cases x)
  case (Fin r)
  have "max 0 (min (real hi) (of_int \<lfloor>r\<rfloor>)) = real_of_int (max 0 (min (int hi) \<lfloor>r\<rfloor>))"
    by (simp add: max_def min_def)
  also have "\<dots> = real (nat (max 0 (min (int hi) \<lfloor>r\<rfloor>)))"
    by simp
  finally show ?thesis using Fin by (simp add: count_def)
qed (simp_all add: clamp_def js_min_def js_max_def count_def)

lemma clamp_NaN [simp]: "clamp NaN lo hi = NaN"
  by (simp add: clamp_def js_min_def js_max_def)

lemma count_le: "count hi x \<le> hi"
  by (cases x) (simp_all add: count_def)

lemma count_mono: "js_le x y \<Longrightarrow> count hi x \<le> count hi y"
proof (cases x; cases y)
  fix a b assume xy: "x = Fin a" "y = Fin b" and le: "js_le x y"
  then have "\<lfloor>a\<rfloor> \<le> \<lfloor>b\<rfloor>" by (simp add: floor_mono)
  then show ?thesis using xy by (simp add: count_def)
qed (simp_all add: count_def js_le_def js_eq_def)

lemma clamp_not_PInf: "clamp v (Fin lo) (Fin hi) \<noteq> PInf"
  by (cases v) (simp_all add: clamp_def js_min_def js_max_def)

lemma zeroHit_NaN_draws:
  "zeroHitHypergeometricRatio (Fin (real N)) (Fin (real t)) NaN =
     Some (Fin (if t = 0 \<or> N = 0 then 1 else if N < t then 0 else 1))"
  by (simp add: zeroHit_is_spec zeroHit_spec_def running_product_def iterations_def
      js_le_def js_eq_def js_gt_def)

lemma zeroHit_clamped_range:
  "\<exists>p. zeroHitHypergeometricRatio (Fin (real N)) (Fin (real t))
          (clamp (js_floor x) (Fin 0) (Fin (real hi))) = Some (Fin p) \<and> 0 \<le> p \<and> p \<le> 1"
proof (cases "x = NaN")
  case True
  then show ?thesis by (simp add: zeroHit_NaN_draws)
next
  case False
  then show ?thesis
    by (simp add: clamp_floor_count zeroHit_nat zr_nonneg zr_le1)
qed

section \<open>Zeros of the zero-hit ratio\<close>

text \<open>
  Claim C8 says that the zero-hit ratio is 0 whenever \<open>draws > total - targetInDeck\<close>.
  With no target in the deck the second short-circuit rule answers 1 before the draw count
  is compared with the deck: 40 draws from 36 cards without targets.
\<close>

theorem zeroHit_zero_counterexample:
  "(40::real) > 36 - 0 \<and> zeroHitHypergeometricRatio (Fin 36) (Fin 0) (Fin 40) = Some (Fin 1)"
  by (simp add: zeroHitHypergeometricRatio_def)

text \<open>
  Claim C8, amended.  For finite \<open>total > 0\<close>, \<open>targetInDeck > 0\<close> and \<open>draws > 0\<close> with
  \<open>draws\<close> greater than \<open>total - targetInDeck\<close> rounded up to an integer (for integer
  inputs: \<open>draws > total - targetInDeck\<close>), the zero-hit ratio is 0.
\<close>

theorem zeroHit_zero:
  fixes total' targetInDeck draws :: real
  assumes "0 < total'" and "0 < targetInDeck" and "0 < draws"
    and "of_int \<lceil>total' - targetInDeck\<rceil> < draws"
  shows "zeroHitHypergeometricRatio (Fin total') (Fin targetInDeck) (Fin draws) = Some (Fin 0)"
proof -
  have "zeroHit_spec (Fin total') (Fin targetInDeck) (Fin draws) = Fin 0"
  proof (cases "draws \<le> total' \<and> targetInDeck \<le> total'")
    case False
    with assms show ?thesis by (auto simp: zeroHit_spec_def)
  next
    case True
    define j where "j = nat \<lceil>total' - targetInDeck\<rceil>"
    have ge: "0 \<le> \<lceil>total' - targetInDeck\<rceil>"
      using True by (simp add: le_ceiling_iff)
    then have "int j < \<lceil>draws\<rceil>"
      using assms(4) by (simp add: j_def less_ceiling_iff)
    then have "j \<in> {0..<nat \<lceil>draws\<rceil>}" by simp
    moreover have "total' - targetInDeck - real j \<le> 0"
      using ge by (simp add: j_def)
    ultimately have "\<exists>j \<in> {0..<nat \<lceil>draws\<rceil>}. total' - targetInDeck - real j \<le> 0"
      by blast
    then show ?thesis
      using assms True by (simp add: zeroHit_spec_real)
  qed
  then show ?thesis by (simp add: zeroHit_is_spec)
qed

theorem zeroHit_zero_witness:
  "(0::real) < 36 \<and> (0::real) < 35 \<and> (0::real) < 2 \<and> real_of_int \<lceil>(36::real) - 35\<rceil> < 2 \<and>
   zeroHitHypergeometricRatio (Fin 36) (Fin 35) (Fin 2) = Some (Fin 0)"
  using zeroHit_zero [of 36 35 2] by simp

section \<open>The keep policy and the keep-only model\<close>

lemma floorClamp_not_PInf: "floorClamp x hi \<noteq> PInf"
  by (simp add: floorClamp_def clamp_not_PInf)

lemma floorClamp_count: "x \<noteq> NaN \<Longrightarrow> floorClamp x hi = Fin (real (count hi x))"
  by (simp add: floorClamp_def clamp_floor_count)

lemma floorClamp_range: "x \<noteq> NaN \<Longrightarrow> \<exists>k. k \<le> hi \<and> floorClamp x hi = Fin (real k)"
  using count_le [of hi x] by (auto simp: floorClamp_count)

lemma floorClamp_40: "clamp (js_floor x) (Fin 0) (Fin 40) = floorClamp x 40"
  by (simp add: floorClamp_def)

lemma floorClamp_4: "clamp (js_floor x) (Fin 0) (Fin 4) = floorClamp x 4"
  by (simp add: floorClamp_def)

lemma keep_is_formula:
  "probabilityAtLeastOne Keep l n m =
     Some (clamp (js_sub (Fin 1)
             (js_mul (js_mul (zeroHit_spec (Fin 40) (floorClamp n 40) (Fin 4))
                             (zeroHit_spec (Fin 36) (floorClamp n 40) (floorClamp l 40)))
                     (zeroHit_spec (Fin 36) (floorClamp n 40) (floorClamp m 40))))
           (Fin 0) (Fin 1))"
  by (simp add: probabilityAtLeastOne_def floorClamp_40 zeroHit_is_spec floorClamp_not_PInf
      Let_def)

text \<open>
  Claim C2.  For every input, \<^verbatim>\<open>probabilityAtLeastOne\<close> under the keep policy floors and
  clamps \<open>n\<close>, \<open>l\<close>, \<open>m\<close> to \<open>[0, 40]\<close> and returns
  \<open>clamp(1 - zeroHitRatio(40, n, 4) * zeroHitRatio(36, n, l) * zeroHitRatio(36, n, m), 0, 1)\<close>:
  the miss probability is the product of the three zero-hit terms over decks of 40, 36 and
  36 cards.  The floored and clamped value of an argument other than \<^verbatim>\<open>NaN\<close> is an
  integer between 0 and 40.
\<close>

theorem keep_policy_formula:
  "probabilityAtLeastOne Keep l n m =
     Some (clamp (js_sub (Fin 1)
             (js_mul (js_mul (zeroHit_spec (Fin 40) (floorClamp n 40) (Fin 4))
                             (zeroHit_spec (Fin 36) (floorClamp n 40) (floorClamp l 40)))
                     (zeroHit_spec (Fin 36) (floorClamp n 40) (floorClamp m 40))))
           (Fin 0) (Fin 1))
   \<and> zeroHitHypergeometricRatio (Fin 40) (floorClamp n 40) (Fin 4) =
       Some (zeroHit_spec (Fin 40) (floorClamp n 40) (Fin 4))
   \<and> zeroHitHypergeometricRatio (Fin 36) (floorClamp n 40) (floorClamp l 40) =
       Some (zeroHit_spec (Fin 36) (floorClamp n 40) (floorClamp l 40))
   \<and> zeroHitHypergeometricRatio (Fin 36) (floorClamp n 40) (floorClamp m 40) =
       Some (zeroHit_spec (Fin 36) (floorClamp n 40) (floorClamp m 40))
   \<and> (n \<noteq> NaN \<longrightarrow> (\<exists>k. k \<le> 40 \<and> floorClamp n 40 = Fin (real k)))
   \<and> (l \<noteq> NaN \<longrightarrow> (\<exists>k. k \<le> 40 \<and> floorClamp l 40 = Fin (real k)))
   \<and> (m \<noteq> NaN \<longrightarrow> (\<exists>k. k \<le> 40 \<and> floorClamp m 40 = Fin (real k)))"
  by (simp add: keep_is_formula floorClamp_range zeroHit_is_spec floorClamp_not_PInf)

lemma keepOnly_is_formula:
  "probabilityAtLeastOneKeep n l m =
     Some (clamp (js_sub (Fin 1)
             (js_mul (zeroHit_spec (Fin 36) (floorClamp n 40) (floorClamp l 4))
                     (zeroHit_spec (Fin 36) (floorClamp n 40) (floorClamp m 40))))
           (Fin 0) (Fin 1))"
  by (simp add: probabilityAtLeastOneKeep_def floorClamp_40 floorClamp_4 zeroHit_is_spec
      floorClamp_not_PInf Let_def)

text \<open>
  Claim C4.  For every input, \<^verbatim>\<open>probabilityAtLeastOneKeep\<close> floors and clamps \<open>n\<close> to
  \<open>[0, 40]\<close>, \<open>l\<close> to \<open>[0, 4]\<close> and \<open>m\<close> to \<open>[0, 40]\<close> and returns
  \<open>clamp(1 - zeroHitRatio(36, n, l) * zeroHitRatio(36, n, m), 0, 1)\<close>; its miss
  probability has no factor for the initial four draws from the deck of 40.
\<close>

theorem keepOnly_formula:
  "probabilityAtLeastOneKeep n l m =
     Some (clamp (js_sub (Fin 1)
             (js_mul (zeroHit_spec (Fin 36) (floorClamp n 40) (floorClamp l 4))
                     (zeroHit_spec (Fin 36) (floorClamp n 40) (floorClamp m 40))))
           (Fin 0) (Fin 1))
   \<and> zeroHitHypergeometricRatio (Fin 36) (floorClamp n 40) (floorClamp l 4) =
       Some (zeroHit_spec (Fin 36) (floorClamp n 40) (floorClamp l 4))
   \<and> zeroHitHypergeometricRatio (Fin 36) (floorClamp n 40) (floorClamp m 40) =
       Some (zeroHit_spec (Fin 36) (floorClamp n 40) (floorClamp m 40))
   \<and> (n \<noteq> NaN \<longrightarrow> (\<exists>k. k \<le> 40 \<and> floorClamp n 40 = Fin (real k)))
   \<and> (l \<noteq> NaN \<longrightarrow> (\<exists>k. k \<le> 4 \<and> floorClamp l 4 = Fin (real k)))
   \<and> (m \<noteq> NaN \<longrightarrow> (\<exists>k. k \<le> 40 \<and> floorClamp m 40 = Fin (real k)))"
  by (simp add: keepOnly_is_formula floorClamp_range zeroHit_is_spec floorClamp_not_PInf)

theorem keep_policy_formula_witness:
  "probabilityAtLeastOne Keep (Fin 0) (Fin 3) (Fin 0) = Some (Fin (137 / 494))
   \<and> Fin 3 \<noteq> NaN \<and> floorClamp (Fin 3) 40 = Fin 3 \<and> floorClamp (Fin (-2)) 40 = Fin 0
   \<and> floorClamp PInf 40 = Fin 40"
  using keep_policy_formula [of "Fin 0" "Fin 3" "Fin 0"]
  by (simp add: zeroHit_spec_def running_product_def iterations_def factor_def floorClamp_def
      upt_rec clamp_def js_min_def js_max_def)

theorem keepOnly_formula_witness:
  "probabilityAtLeastOneKeep (Fin 3) (Fin 4) (Fin 9) = Some (Fin (10131 / 14161))
   \<and> Fin 3 \<noteq> NaN \<and> floorClamp (Fin 3) 40 = Fin 3 \<and> floorClamp (Fin 9) 4 = Fin 4"
  using keepOnly_formula [of "Fin 3" "Fin 4" "Fin 9"]
  by (simp add: zeroHit_spec_def running_product_def iterations_def factor_def floorClamp_def
      upt_rec)

section \<open>The no-keep policy without a mulligan\<close>

lemma zeroHit_clamped:
  "\<exists>p. zeroHit_spec (Fin (real N)) (Fin (real t)) (floorClamp x hi) = Fin p \<and> 0 \<le> p \<and> p \<le> 1"
  using zeroHit_clamped_range [of N t x hi]
  by (simp add: zeroHit_is_spec floorClamp_not_PInf flip: floorClamp_def)

text \<open>
  Claim C9.  For \<open>n = 3\<close>, \<open>l = 0\<close> and every \<open>m\<close> the summation of the no-keep policy
  collapses to its single term \<open>k = 0\<close>, and \<^verbatim>\<open>probabilityAtLeastOne\<close> with the no-keep
  policy equals the value of the keep-only model, which is
  \<open>1 - zeroHitRatio(36, 3, m)\<close> with \<open>m\<close> floored and clamped to \<open>[0, 40]\<close>; for an
  integer \<open>m\<close> the ratio is the same with and without the clamp.
\<close>

theorem noKeep_without_mulligan:
  "probabilityAtLeastOne NoKeep (Fin 0) (Fin 3) m = probabilityAtLeastOneKeep (Fin 3) (Fin 0) m
   \<and> probabilityAtLeastOneKeep (Fin 3) (Fin 0) m =
       Some (js_sub (Fin 1) (zeroHit_spec (Fin 36) (Fin 3) (floorClamp m 40)))
   \<and> noKeep_loop (Fin 3) (Fin 0) (Fin 1) (Fin 0) 0 (Fin 0) =
       Some (js_mul (plTerm (Fin 3) (Fin 0) (Fin 1) 0) (Fin 1))
   \<and> noKeep_loop (Fin 3) (Fin 0) (Fin 1) (Fin 0) 0 (Fin 0) = Some (Fin 1)
   \<and> zeroHitHypergeometricRatio (Fin 36) (Fin 3) (floorClamp m 40) =
       Some (zeroHit_spec (Fin 36) (Fin 3) (floorClamp m 40))
   \<and> zeroHit_spec (Fin 36) (Fin 3) (floorClamp (Fin (of_int i)) 40) =
       zeroHit_spec (Fin 36) (Fin 3) (Fin (of_int i))"
proof -
  obtain q where q: "zeroHit_spec (Fin 36) (Fin 3) (floorClamp m 40) = Fin q" "0 \<le> q" "q \<le> 1"
    using zeroHit_clamped [of 36 3 m 40] by auto
  have z0: "zeroHitHypergeometricRatio (Fin 36) (Fin 3) (Fin 0) = Some (Fin 1)"
    by (simp add: zeroHitHypergeometricRatio_def)
  have pl: "plTerm (Fin 3) (Fin 0) (Fin 1) 0 = Fin 1"
    by (simp add: plTerm_def combination_def)
  have loop: "noKeep_loop (Fin 3) (Fin 0) (Fin 1) (Fin 0) 0 (Fin 0) = Some (Fin 1)"
    by (simp add: noKeep_loop.simps z0 pl)
  have keep: "probabilityAtLeastOneKeep (Fin 3) (Fin 0) m = Some (Fin (1 - q))"
    using q by (simp add: keepOnly_is_formula floorClamp_count count_def zeroHit_spec_def)
  have c36: "combination (Fin 36) (Fin 0) = Fin 1"
    by (simp add: combination_def)
  have noKeep: "probabilityAtLeastOne NoKeep (Fin 0) (Fin 3) m = Some (Fin (1 - q))"
    using q
    by (simp add: probabilityAtLeastOne_def Let_def floorClamp_40 zeroHit_is_spec
        floorClamp_not_PInf c36 loop)
  have int: "zeroHit_spec (Fin 36) (Fin 3) (floorClamp (Fin (of_int i)) 40) =
       zeroHit_spec (Fin 36) (Fin 3) (Fin (of_int i))"
  proof -
    consider "i \<le> 0" | "0 < i" "i \<le> 40" | "40 < i" by linarith
    then show ?thesis
    proof cases
      case 1
      then show ?thesis by (simp add: floorClamp_count count_def zeroHit_spec_def max_def)
    next
      case 2
      then show ?thesis by (simp add: floorClamp_count count_def)
    next
      case 3
      then show ?thesis by (simp add: floorClamp_count count_def zeroHit_spec_def)
    qed
  qed
  show ?thesis
    using q keep noKeep loop pl int by (simp add: zeroHit_is_spec floorClamp_not_PInf)
qed

theorem noKeep_without_mulligan_witness:
  "probabilityAtLeastOne NoKeep (Fin 0) (Fin 3) (Fin 2) = Some (Fin (17 / 105))
   \<and> probabilityAtLeastOneKeep (Fin 3) (Fin 0) (Fin 2) = Some (Fin (17 / 105))"
  using noKeep_without_mulligan [of "Fin 2" 2]
  by (simp add: zeroHit_spec_def running_product_def iterations_def factor_def floorClamp_def
      upt_rec)

section \<open>The no-keep policy\<close>

lemma js_le_terms:
  "kMax \<noteq> PInf \<Longrightarrow> js_le (Fin (real k)) kMax \<longleftrightarrow> k < terms kMax"
proof (cases kMax)
  case (Fin x)
  have "real k \<le> x \<longleftrightarrow> int k \<le> \<lfloor>x\<rfloor>"
    by (simp add: le_floor_iff)
  then show ?thesis
    using Fin by (auto simp: terms_def)
qed (simp_all add: terms_def js_le_def js_eq_def)

lemma plTerm_P_l: "plTerm n l (combination (js_add (Fin 36) l) l) k = P_l n l k"
  by (simp add: plTerm_def P_l_def combination_is_spec)

lemma noKeep_loop_fold:
  assumes "kMax \<noteq> PInf" and "l \<noteq> PInf"
  shows "k \<le> terms kMax \<Longrightarrow>
    noKeep_loop n l D kMax k s =
      Some (foldl (\<lambda>s k. js_add s (js_mul (plTerm n l D k) (Q_l n l k))) s [k..<terms kMax])"
proof (induction "terms kMax - k" arbitrary: k s)
  case 0
  then have "\<not> js_le (Fin (real k)) kMax"
    using assms by (simp add: js_le_terms)
  with 0 show ?case
    by (subst noKeep_loop.simps) simp
next
  case (Suc d)
  then have lt: "k < terms kMax" by simp
  then have run: "js_le (Fin (real k)) kMax"
    using assms by (simp add: js_le_terms)
  have list_eq: "[k..<terms kMax] = k # [Suc k..<terms kMax]"
    using lt by (simp add: upt_conv_Cons)
  have "d = terms kMax - Suc k" "Suc k \<le> terms kMax"
    using Suc.hyps(2) lt by simp_all
  note IH = Suc.hyps(1) [OF this]
  show ?case
    using run assms
    by (subst noKeep_loop.simps) (simp add: IH list_eq zeroHit_is_spec Q_l_def)
qed

lemma js_min_not_PInf: "b \<noteq> PInf \<Longrightarrow> js_min a b \<noteq> PInf"
  by (cases a; cases b) (simp_all add: js_min_def)

lemma noKeep_is_formula:
  "probabilityAtLeastOne NoKeep l n m =
     Some (noKeep_spec (floorClamp n 40) (floorClamp l 40) (floorClamp m 40))"
proof -
  have "noKeep_loop (floorClamp n 40) (floorClamp l 40)
          (combination (js_add (Fin 36) (floorClamp l 40)) (floorClamp l 40))
          (js_min (floorClamp l 40) (floorClamp n 40)) 0 (Fin 0) =
        Some (summation (floorClamp n 40) (floorClamp l 40))"
    by (simp add: noKeep_loop_fold js_min_not_PInf floorClamp_not_PInf plTerm_P_l summation_def
        foldl_map)
  then show ?thesis
    by (simp add: probabilityAtLeastOne_def Let_def floorClamp_40 zeroHit_is_spec
        floorClamp_not_PInf noKeep_spec_def Q_m_def)
qed

section \<open>Binomial coefficients\<close>

lemma binomial_Suc_real:
  "real (n choose Suc k) = real (n - k) * real (n choose k) / real (Suc k)"
proof -
  have "Suc k * (n choose Suc k) = (n - k) * (n choose k)"
    by (simp only: binomial_absorption binomial_absorb_comp)
  then have "real (Suc k) * real (n choose Suc k) = real (n - k) * real (n choose k)"
    by (metis of_nat_mult)
  then show ?thesis
    by (simp add: field_simps)
qed

lemma rising_product_binomial:
  "(\<Prod>j = 1..K. real (a + j) / real j) = real ((a + K) choose K)"
proof (induction K)
  case 0
  then show ?case by simp
next
  case (Suc K)
  have "real ((a + Suc K) choose Suc K) = real (Suc (a + K)) * real ((a + K) choose K) / real (Suc K)"
    using Suc_times_binomial_eq [of "a + K" K]
    by (simp add: field_simps flip: of_nat_mult)
  with Suc show ?case
    by (simp add: field_simps)
qed

lemma combination_loop_binomial:
  assumes "0 \<le> kEff" "kEff \<le> n"
  shows "combination_loop n kEff 1 1 = real (nat n choose nat kEff)"
proof -
  define K a where "K = nat kEff" and "a = nat (n - kEff)"
  have kEff: "kEff = int K" and n: "n = int (a + K)"
    using assms by (simp_all add: K_def a_def)
  have "combination_loop n kEff 1 1 = (\<Prod>j = 1..int K. of_int (int a + j) / of_int j)"
    using assms by (simp add: combination_loop_prod kEff n)
  also have "\<dots> = (\<Prod>j \<in> int ` {1..K}. real_of_int (int a + j) / real_of_int j)"
    by (simp add: image_int_atLeastAtMost)
  also have "\<dots> = (\<Prod>j = 1..K. real (a + j) / real j)"
    by (subst prod.reindex) (simp_all add: o_def)
  also have "\<dots> = real ((a + K) choose K)"
    by (rule rising_product_binomial)
  finally have "combination_loop n kEff 1 1 = real ((a + K) choose K)" .
  moreover have "nat n = a + K" "nat kEff = K"
    using n kEff by simp_all
  ultimately show ?thesis
    by (simp only:)
qed

lemma combination_int:
  "combination (Fin (of_int n)) (Fin (of_int k)) = Fin (choose_int n k)"
proof (cases "k < 0 \<or> n < k")
  case True
  then show ?thesis by (auto simp: combination_def choose_int_def)
next
  case False
  then have k: "0 \<le> k" "k \<le> n" by simp_all
  show ?thesis
  proof (cases "k \<le> n - k")
    case True
    then have "min k (n - k) = k" by simp
    with k True show ?thesis
      by (simp add: combination_def choose_int_def Let_def combination_loop_binomial)
  next
    case False
    then have m: "min k (n - k) = n - k" by simp
    have sym: "nat n choose nat (n - k) = nat n choose nat k"
      using k binomial_symmetric [of "nat k" "nat n"] by (simp add: nat_diff_distrib)
    have "n - k = 0 \<Longrightarrow> nat n choose nat k = 1"
      using k by simp
    with k False show ?thesis
      by (simp add: combination_def choose_int_def Let_def combination_loop_binomial m sym)
  qed
qed

lemma combination_nat:
  "combination (Fin (real n)) (Fin (real k)) = Fin (real (n choose k))"
  using combination_int [of "int n" "int k"] by (simp add: choose_int_def)

lemma zprod_binomial:
  "d \<le> N \<Longrightarrow> zprod N t d = real ((N - t) choose d) / real (N choose d)"
proof (induction d)
  case 0
  then show ?case by (simp add: zprod_0)
next
  case (Suc d)
  define A B x y s where "A = real ((N - t) choose d)" and "B = real (N choose d)"
    and "x = real (N - t - d)" and "y = real (N - d)" and "s = real (Suc d)"
  have IH: "zprod N t d = A / B"
    using Suc by (simp add: A_def B_def)
  have pos: "0 < y" "0 < B" "0 < s"
    using Suc.prems by (simp_all add: y_def B_def s_def)
  have "zprod N t (Suc d) = A / B * (x / y)"
    by (simp only: zprod_Suc IH x_def y_def)
  also have "\<dots> = (x * A / s) / (y * B / s)"
    using pos by (simp add: field_simps)
  also have "x * A / s = real ((N - t) choose Suc d)"
    by (simp only: binomial_Suc_real x_def A_def s_def)
  also have "y * B / s = real (N choose Suc d)"
    by (simp only: binomial_Suc_real y_def B_def s_def)
  finally show ?case .
qed

section \<open>The no-keep summation on natural numbers\<close>

lemma zeroHit_spec_nat:
  "zeroHit_spec (Fin (real N)) (Fin (real t)) (Fin (real d)) = Fin (zr N t d)"
  using zeroHit_nat [of N t d] zeroHit_is_spec [of "Fin (real d)" "Fin (real N)" "Fin (real t)"]
  by simp

lemma P_l_nat:
  "P_l (Fin (real n)) (Fin (real l)) k =
     Fin (choose_int (int n) (int k) * choose_int (36 + int l - int n) (int l - int k)
            / real ((36 + l) choose l))"
proof -
  have d: "combination (Fin (36 + real l)) (Fin (real l)) = Fin (real ((36 + l) choose l))"
    using combination_nat [of "36 + l" l] by simp
  have a: "combination (Fin (real n)) (Fin (real k)) = Fin (choose_int (int n) (int k))"
    using combination_int [of "int n" "int k"] by simp
  have b: "combination (Fin (36 + real l - real n)) (Fin (real l - real k)) =
           Fin (choose_int (36 + int l - int n) (int l - int k))"
    using combination_int [of "36 + int l - int n" "int l - int k"] by simp
  show ?thesis
    by (simp add: P_l_def a b d flip: combination_is_spec)
qed

lemma Q_l_nat: "k \<le> n \<Longrightarrow> Q_l (Fin (real n)) (Fin (real l)) k = Fin (zr 36 (n - k) l)"
  using zeroHit_spec_nat [of 36 "n - k" l] by (simp add: Q_l_def)

lemma foldl_js_add_Fin:
  "\<forall>k \<in> set xs. f k = Fin (g k) \<Longrightarrow>
   foldl js_add (Fin s) (map f xs) = Fin (s + sum_list (map g xs))"
  by (induction xs arbitrary: s) (simp_all add: add.assoc)

lemma summation_nat: "summation (Fin (real n)) (Fin (real l)) = Fin (noKeepSum n l)"
proof -
  have t: "terms (js_min (Fin (real l)) (Fin (real n))) = Suc (min l n)"
    by (auto simp: terms_def min_def)
  have "\<forall>k \<in> set [0..<Suc (min l n)].
          js_mul (P_l (Fin (real n)) (Fin (real l)) k) (Q_l (Fin (real n)) (Fin (real l)) k) =
          Fin (noKeepTerm n l k)"
    by (simp add: P_l_nat Q_l_nat noKeepTerm_def)
  from foldl_js_add_Fin [OF this, of 0]
  have "summation (Fin (real n)) (Fin (real l)) =
        Fin (sum_list (map (noKeepTerm n l) [0..<Suc (min l n)]))"
    by (simp only: summation_def t add_0)
  also have "sum_list (map (noKeepTerm n l) [0..<Suc (min l n)]) = noKeepSum n l"
    by (simp only: interv_sum_list_conv_sum_set_nat noKeepSum_def set_upt
        atLeast0LessThan lessThan_Suc_atMost)
  finally show ?thesis .
qed

lemma summation_NaN: "summation n NaN = Fin 0" "summation NaN l = Fin 0"
  by (simp_all add: summation_def terms_def js_min_def)

lemma choose_int_nonneg: "0 \<le> choose_int n k"
  by (simp add: choose_int_def)

lemma noKeepTerm_nonneg: "0 \<le> noKeepTerm n l k"
  by (simp add: noKeepTerm_def choose_int_nonneg zr_nonneg)

lemma noKeepSum_nonneg: "0 \<le> noKeepSum n l"
  by (simp add: noKeepSum_def sum_nonneg noKeepTerm_nonneg)

lemma summation_clamped:
  "n \<noteq> NaN \<Longrightarrow> \<exists>S. summation (floorClamp n 40) (floorClamp l 40) = Fin S \<and> 0 \<le> S"
proof (cases "l = NaN")
  case True
  then show ?thesis by (simp add: floorClamp_def summation_NaN)
next
  case False
  assume "n \<noteq> NaN"
  with False show ?thesis
    by (simp add: floorClamp_count summation_nat noKeepSum_nonneg)
qed

text \<open>
  With a target count other than \<^verbatim>\<open>NaN\<close> every call returns a number between 0 and 1,
  whatever the two other arguments are.
\<close>

lemma in_unit_interval:
  assumes "n \<noteq> NaN"
  shows "\<exists>p. probabilityAtLeastOne keepMode l n m = Some (Fin p) \<and> 0 \<le> p \<and> p \<le> 1"
proof (cases keepMode)
  case Keep
  obtain k where k: "floorClamp n 40 = Fin (real k)"
    using assms floorClamp_range by blast
  obtain a where a: "zeroHit_spec (Fin 40) (Fin (real k)) (Fin 4) = Fin a"
    using zeroHit_spec_nat [of 40 k 4] by simp
  obtain b where b: "zeroHit_spec (Fin 36) (Fin (real k)) (floorClamp l 40) = Fin b"
    using zeroHit_clamped [of 36 k l 40] by auto
  obtain c where c: "zeroHit_spec (Fin 36) (Fin (real k)) (floorClamp m 40) = Fin c"
    using zeroHit_clamped [of 36 k m 40] by auto
  show ?thesis
    by (simp add: Keep keep_is_formula k a b c)
next
  case NoKeep
  obtain k where k: "floorClamp n 40 = Fin (real k)"
    using assms floorClamp_range by blast
  obtain q where q: "Q_m (Fin (real k)) (floorClamp m 40) = Fin q"
    using zeroHit_clamped [of 36 k m 40] by (auto simp: Q_m_def)
  obtain S where S: "summation (Fin (real k)) (floorClamp l 40) = Fin S"
    using summation_clamped [OF assms, of l] by (auto simp: k)
  show ?thesis
    by (simp add: NoKeep noKeep_is_formula noKeep_spec_def k q S)
qed

lemma keepOnly_in_unit_interval:
  assumes "n \<noteq> NaN"
  shows "\<exists>p. probabilityAtLeastOneKeep n l m = Some (Fin p) \<and> 0 \<le> p \<and> p \<le> 1"
proof -
  obtain k where k: "floorClamp n 40 = Fin (real k)"
    using assms floorClamp_range by blast
  obtain b where b: "zeroHit_spec (Fin 36) (Fin (real k)) (floorClamp l 4) = Fin b"
    using zeroHit_clamped [of 36 k l 4] by auto
  obtain c where c: "zeroHit_spec (Fin 36) (Fin (real k)) (floorClamp m 40) = Fin c"
    using zeroHit_clamped [of 36 k m 40] by auto
  show ?thesis
    by (simp add: keepOnly_is_formula k b c)
qed

section \<open>The target count \<^verbatim>\<open>NaN\<close>\<close>

text \<open>
  Claim C1 says that for every policy and all numeric arguments, \<^verbatim>\<open>NaN\<close> and the
  infinities included, \<^verbatim>\<open>probabilityAtLeastOne\<close> and \<^verbatim>\<open>probabilityAtLeastOneKeep\<close>
  return a number in \<open>[0, 1]\<close>.  \<^verbatim>\<open>Math.min\<close> and \<^verbatim>\<open>Math.max\<close> pass \<^verbatim>\<open>NaN\<close> on, so
  the clamp does not absorb a target count \<^verbatim>\<open>NaN\<close>, and with one later draw each of the
  three calls returns \<^verbatim>\<open>NaN\<close>, which is neither at least 0 nor at most 1.  (With any other
  target count the result is in \<open>[0, 1]\<close>: \<open>in_unit_interval\<close> and
  \<open>keepOnly_in_unit_interval\<close>.)
\<close>

theorem NaN_target_count:
  "probabilityAtLeastOne Keep (Fin 0) NaN (Fin 1) = Some NaN
   \<and> probabilityAtLeastOne NoKeep (Fin 0) NaN (Fin 1) = Some NaN
   \<and> probabilityAtLeastOneKeep NaN (Fin 0) (Fin 1) = Some NaN
   \<and> \<not> js_le (Fin 0) NaN \<and> \<not> js_le NaN (Fin 1)"
  by (simp add: keep_is_formula keepOnly_is_formula noKeep_is_formula noKeep_spec_def Q_m_def
      summation_NaN zeroHit_spec_def running_product_def iterations_def
      factor_def floorClamp_def upt_rec clamp_def js_min_def js_max_def js_le_def js_eq_def
      js_gt_def js_sub_def)

text \<open>
  Claim C3 gives the formula of the no-keep policy, which is \<open>noKeep_is_formula\<close> for
  every input, and says that when \<open>combination(36 + l, l)\<close> is 0 the sum is 0 and the
  result is 1.  That denominator is 0 only for a mulligan count \<^verbatim>\<open>NaN\<close>; if the target
  count is \<^verbatim>\<open>NaN\<close> as well, \<open>Q_m\<close> is \<^verbatim>\<open>NaN\<close> for five later draws and so is the
  result.
\<close>

theorem noKeep_degenerate_NaN:
  "combination (js_add (Fin 36) (floorClamp NaN 40)) (floorClamp NaN 40) = Fin 0
   \<and> summation (floorClamp NaN 40) (floorClamp NaN 40) = Fin 0
   \<and> probabilityAtLeastOne NoKeep NaN NaN (Fin 5) = Some NaN"
  by (simp add: noKeep_is_formula noKeep_spec_def Q_m_def summation_NaN combination_def
      zeroHit_spec_def running_product_def iterations_def
      factor_def floorClamp_def upt_rec clamp_def js_min_def js_max_def js_le_def js_eq_def
      js_gt_def js_sub_def)

text \<open>With a target count other than \<^verbatim>\<open>NaN\<close> the degenerate case does return 1.\<close>

lemma noKeep_degenerate:
  assumes "combination (js_add (Fin 36) (floorClamp l 40)) (floorClamp l 40) = Fin 0"
  shows "summation (floorClamp n 40) (floorClamp l 40) = Fin 0
         \<and> (n \<noteq> NaN \<longrightarrow> probabilityAtLeastOne NoKeep l n m = Some (Fin 1))"
proof -
  have l: "l = NaN"
  proof (rule ccontr)
    assume "l \<noteq> NaN"
    then obtain k where k: "floorClamp l 40 = Fin (real k)"
      using floorClamp_range by blast
    have "combination (Fin (36 + real k)) (Fin (real k)) = Fin (real ((36 + k) choose k))"
      using combination_nat [of "36 + k" k] by simp
    with assms show False by (simp add: k)
  qed
  then have s: "summation (floorClamp n 40) (floorClamp l 40) = Fin 0"
    by (simp add: floorClamp_def summation_NaN)
  have "probabilityAtLeastOne NoKeep l n m = Some (Fin 1)" if nn: "n \<noteq> NaN"
  proof -
    obtain k where k: "floorClamp n 40 = Fin (real k)"
      using nn floorClamp_range by blast
    obtain q where q: "Q_m (Fin (real k)) (floorClamp m 40) = Fin q"
      using zeroHit_clamped [of 36 k m 40] by (auto simp: Q_m_def)
    show ?thesis
      using s by (simp add: noKeep_is_formula noKeep_spec_def k q)
  qed
  with s show ?thesis by simp
qed

section \<open>The closed form of the no-keep summation\<close>

lemma zr_binomial: "d \<le> N \<Longrightarrow> zr N t d = real ((N - t) choose d) / real (N choose d)"
  using zprod_binomial [of d N t] by (auto simp: zr_def)

lemma choose_int_nat: "choose_int (int n) (int k) = real (n choose k)"
  by (simp add: choose_int_def)

lemma trinomial:
  assumes "k \<le> l"
  shows "((a + l) choose (l - k)) * ((a + k) choose l) = ((a + l) choose l) * (a choose (l - k))"
proof (cases "l \<le> a + k")
  case True
  have "((a + l) choose (a + k)) * ((a + k) choose l) =
        ((a + l) choose l) * ((a + l - l) choose (a + k - l))"
    using True assms by (intro choose_mult) simp_all
  moreover have "(a + l) choose (a + k) = (a + l) choose (l - k)"
    using assms binomial_symmetric [of "a + k" "a + l"] by simp
  moreover have "a choose (a + k - l) = a choose (l - k)"
    using assms True binomial_symmetric [of "a + k - l" a] by simp
  ultimately show ?thesis by simp
next
  case False
  then have "(a + k) choose l = 0" "a choose (l - k) = 0"
    by (simp_all add: binomial_eq_0)
  then show ?thesis by (simp only: mult_zero_right)
qed

text \<open>
  With at most 36 mulligan cards and at most 36 targets each term of the summation factors
  into the closed form and a term of Vandermonde's sum.
\<close>

lemma noKeepTerm_small:
  assumes "l \<le> 36" "n \<le> 36" "k \<le> l" "k \<le> n"
  shows "noKeepTerm n l k =
    real ((36 - n + l) choose l) / real ((36 + l) choose l)
      * (real (n choose k) * real ((36 - n) choose (l - k)) / real (36 choose l))"
proof -
  define a where "a = 36 - n"
  have c1: "choose_int (36 + int l - int n) (int l - int k) = real ((a + l) choose (l - k))"
  proof -
    have "36 + int l - int n = int (a + l)" "int l - int k = int (l - k)"
      using assms by (simp_all add: a_def)
    then show ?thesis by (simp only: choose_int_nat)
  qed
  have z: "zr 36 (n - k) l = real ((a + k) choose l) / real (36 choose l)"
  proof -
    have "36 - (n - k) = a + k" using assms by (simp add: a_def)
    with zr_binomial [of l 36 "n - k"] assms show ?thesis by simp
  qed
  have tri: "real ((a + l) choose (l - k)) * real ((a + k) choose l) =
             real ((a + l) choose l) * real (a choose (l - k))"
    using trinomial [OF assms(3), of a] by (metis of_nat_mult)
  have "noKeepTerm n l k =
        real (n choose k) * (real ((a + l) choose (l - k)) * real ((a + k) choose l))
          / (real ((36 + l) choose l) * real (36 choose l))"
    by (simp add: noKeepTerm_def choose_int_nat c1 z)
  also have "\<dots> = real (n choose k) * (real ((a + l) choose l) * real (a choose (l - k)))
          / (real ((36 + l) choose l) * real (36 choose l))"
    by (simp only: tri)
  finally show ?thesis
    by (simp add: a_def)
qed

lemma vandermonde_min:
  "(\<Sum>k\<le>min l n. (n choose k) * (a choose (l - k))) = (n + a) choose l"
proof -
  have "(\<Sum>k\<le>l. (n choose k) * (a choose (l - k))) =
        (\<Sum>k\<in>{..min l n}. (n choose k) * (a choose (l - k)))"
    by (rule sum.mono_neutral_right) auto
  then show ?thesis by (simp add: vandermonde)
qed

lemma noKeepSum_small:
  assumes "l \<le> 36" "n \<le> 36"
  shows "noKeepSum n l = real ((36 - n + l) choose l) / real ((36 + l) choose l)"
proof -
  have "noKeepSum n l =
        (\<Sum>k\<le>min l n. real ((36 - n + l) choose l) / real ((36 + l) choose l)
           * (real (n choose k) * real ((36 - n) choose (l - k)) / real (36 choose l)))"
    unfolding noKeepSum_def using assms by (intro sum.cong refl noKeepTerm_small) simp_all
  also have "\<dots> = real ((36 - n + l) choose l) / real ((36 + l) choose l)
           * (real (\<Sum>k\<le>min l n. (n choose k) * ((36 - n) choose (l - k))) / real (36 choose l))"
    by (simp add: sum_distrib_left sum_divide_distrib)
  also have "(\<Sum>k\<le>min l n. (n choose k) * ((36 - n) choose (l - k))) = 36 choose l"
    using assms by (simp add: vandermonde_min)
  finally show ?thesis
    using assms by simp
qed

text \<open>With more than 36 targets every term is 0.\<close>

lemma noKeepTerm_large_targets:
  assumes "l \<le> 36" "36 < n" "k \<le> l"
  shows "noKeepTerm n l k = 0"
proof (cases "int n - 36 \<le> int k")
  case False
  then have "choose_int (36 + int l - int n) (int l - int k) = 0"
    by (simp add: choose_int_def)
  then show ?thesis by (simp add: noKeepTerm_def)
next
  case True
  then have "0 < l" "36 - (n - k) < l" "0 < n - k"
    using assms by linarith+
  then have "zr 36 (n - k) l = 0"
    using assms by (simp add: zr_def zprod_zero)
  then show ?thesis by (simp add: noKeepTerm_def)
qed

lemma noKeepSum_large_targets: "l \<le> 36 \<Longrightarrow> 36 < n \<Longrightarrow> noKeepSum n l = 0"
  unfolding noKeepSum_def by (intro sum.neutral ballI noKeepTerm_large_targets) simp_all

text \<open>With more than 36 mulligan cards only the term \<open>k = n\<close> remains.\<close>

lemma noKeepTerm_large_mulligan: "36 < l \<Longrightarrow> k < n \<Longrightarrow> noKeepTerm n l k = 0"
  by (simp add: noKeepTerm_def zr_def)

lemma noKeepTerm_all_targets:
  "n \<le> l \<Longrightarrow> noKeepTerm n l n = real ((36 + l - n) choose (l - n)) / real ((36 + l) choose l)"
proof -
  assume nl: "n \<le> l"
  have "36 + int l - int n = int (36 + l - n)" "int l - int n = int (l - n)"
    using nl by simp_all
  then have "choose_int (36 + int l - int n) (int l - int n) = real ((36 + l - n) choose (l - n))"
    by (simp only: choose_int_nat)
  then show ?thesis
    by (simp add: noKeepTerm_def choose_int_nat zr_def)
qed

lemma noKeepSum_large_mulligan:
  assumes "36 < l"
  shows "noKeepSum n l =
    (if n \<le> l then real ((36 + l - n) choose (l - n)) / real ((36 + l) choose l) else 0)"
proof (cases "n \<le> l")
  case True
  then have m: "min l n = n" by simp
  have "noKeepSum n l = (\<Sum>k\<in>{n}. noKeepTerm n l k)"
    unfolding noKeepSum_def m
    by (rule sum.mono_neutral_right) (use assms in \<open>auto simp: noKeepTerm_large_mulligan\<close>)
  with True show ?thesis by (simp add: noKeepTerm_all_targets)
next
  case False
  then have "noKeepSum n l = 0"
    unfolding noKeepSum_def
    by (intro sum.neutral ballI noKeepTerm_large_mulligan assms) simp
  with False show ?thesis by simp
qed

text \<open>The sum does not grow with the target count, nor with the mulligan count up to 36.\<close>

lemma noKeepSum_mono_targets:
  assumes "n \<le> n'"
  shows "noKeepSum n' l \<le> noKeepSum n l"
proof (cases "l \<le> 36")
  case True
  show ?thesis
  proof (cases "n' \<le> 36")
    case False
    with True show ?thesis by (simp add: noKeepSum_large_targets noKeepSum_nonneg)
  next
    case n': True
    then have n: "n \<le> 36" using assms by simp
    have "(36 - n' + l) choose l \<le> (36 - n + l) choose l"
      using assms by (intro binomial_right_mono) simp
    then have "real ((36 - n' + l) choose l) \<le> real ((36 - n + l) choose l)"
      by (simp only: of_nat_le_iff)
    then show ?thesis
      using True n n' by (simp add: noKeepSum_small divide_right_mono)
  qed
next
  case False
  then have l: "36 < l" by simp
  show ?thesis
  proof (cases "n' \<le> l")
    case False
    then show ?thesis by (simp add: noKeepSum_large_mulligan [OF l] noKeepSum_nonneg)
  next
    case True
    have "(36 + l - n') choose (l - n') = (36 + l - n') choose 36"
      using True binomial_symmetric [of "l - n'" "36 + l - n'"] by simp
    moreover have "(36 + l - n) choose (l - n) = (36 + l - n) choose 36"
      using True assms binomial_symmetric [of "l - n" "36 + l - n"] by simp
    moreover have "(36 + l - n') choose 36 \<le> (36 + l - n) choose 36"
      using assms by (intro binomial_right_mono) simp
    ultimately have "real ((36 + l - n') choose (l - n')) \<le> real ((36 + l - n) choose (l - n))"
      by (simp only: of_nat_le_iff)
    then show ?thesis
      using True assms by (simp add: noKeepSum_large_mulligan [OF l] divide_right_mono)
  qed
qed

lemma binomial_Suc_Suc_real:
  "real (Suc n choose Suc k) = real (Suc n) * real (n choose k) / real (Suc k)"
  using Suc_times_binomial_eq [of n k] by (simp add: field_simps flip: of_nat_mult)

lemma noKeepSum_Suc_mulligan:
  assumes "Suc l \<le> 36"
  shows "noKeepSum n (Suc l) \<le> noKeepSum n l"
proof (cases "n \<le> 36")
  case False
  with assms show ?thesis by (simp add: noKeepSum_large_targets)
next
  case True
  define a A B where "a = 36 - n" and "A = real ((a + l) choose l)"
    and "B = real ((36 + l) choose l)"
  define x y s where "x = real (Suc (a + l))" and "y = real (Suc (36 + l))"
    and "s = real (Suc l)"
  have pos: "0 < B" "0 \<le> A" "0 < s" "0 < y" "0 \<le> x" "x \<le> y"
    by (simp_all add: A_def B_def s_def x_def y_def a_def)
  have eq: "noKeepSum n l = A / B"
    using assms True by (simp add: noKeepSum_small a_def A_def B_def)
  have "noKeepSum n (Suc l) = real (Suc (a + l) choose Suc l) / real (Suc (36 + l) choose Suc l)"
    using assms True by (simp add: noKeepSum_small a_def)
  also have "\<dots> = (x * A / s) / (y * B / s)"
    by (simp only: binomial_Suc_Suc_real A_def B_def x_def y_def s_def)
  also have "\<dots> = (A / B) * (x / y)"
    using pos by (simp add: field_simps)
  also have "\<dots> \<le> (A / B) * 1"
    using pos by (intro mult_left_mono) simp_all
  finally show ?thesis by (simp add: eq)
qed

lemma noKeepSum_mono_mulligan:
  "l \<le> l' \<Longrightarrow> l' \<le> 36 \<Longrightarrow> noKeepSum n l' \<le> noKeepSum n l"
proof (induction rule: dec_induct)
  case base
  then show ?case by simp
next
  case (step k)
  then have "noKeepSum n (Suc k) \<le> noKeepSum n k"
    by (intro noKeepSum_Suc_mulligan) simp
  with step show ?case by simp
qed

section \<open>Monotonicity\<close>

lemma prob_le_Fin [simp]: "prob_le (Some (Fin x)) (Some (Fin y)) = (x \<le> y)"
  by (simp add: prob_le_def)

lemma prob_le_clamp:
  fixes x x' :: real
  assumes "x' \<le> x"
  shows "prob_le (Some (Fin (max 0 (min 1 (1 - x))))) (Some (Fin (max 0 (min 1 (1 - x')))))"
  using assms by (simp add: max_def min_def)

lemma zeroHit_spec_40_4:
  "zeroHit_spec (Fin 40) (Fin (real t)) (Fin 4) = Fin (zr 40 t 4)"
  using zeroHit_spec_nat [of 40 t 4] by simp

lemma js_le_not_NaN: "js_le a b \<Longrightarrow> a \<noteq> NaN \<and> b \<noteq> NaN"
  by (cases a; cases b) (simp_all add: js_le_def js_eq_def)

lemma mult3_mono:
  fixes a b c :: real
  assumes "a' \<le> a" "b' \<le> b" "c' \<le> c" "0 \<le> a'" "0 \<le> b'" "0 \<le> c'"
  shows "a' * b' * c' \<le> a * b * c"
  using assms by (intro mult_mono mult_nonneg_nonneg) simp_all

lemma mult2_mono:
  fixes a b :: real
  assumes "a' \<le> a" "b' \<le> b" "0 \<le> a'" "0 \<le> b'"
  shows "a' * b' \<le> a * b"
  using assms by (intro mult_mono) simp_all

lemma zeroHit_spec_zc:
  "zeroHit_spec (Fin (real N)) (Fin (real t)) (floorClamp x hi) = Fin (zc N t x hi)"
proof (cases "x = NaN")
  case True
  have "Some (zeroHit_spec (Fin (real N)) (Fin (real t)) NaN) =
        Some (Fin (if t = 0 \<or> N = 0 then 1 else if N < t then 0 else 1))"
    using zeroHit_NaN_draws [of N t] zeroHit_is_spec [of NaN "Fin (real N)" "Fin (real t)"]
    by simp
  with True show ?thesis by (simp add: floorClamp_def zc_def)
next
  case False
  then show ?thesis by (simp add: floorClamp_count zeroHit_spec_nat zc_def)
qed

lemma zeroHit_spec_zc_36:
  "zeroHit_spec (Fin 36) (Fin (real t)) (floorClamp x hi) = Fin (zc 36 t x hi)"
  using zeroHit_spec_zc [of 36 t x hi] by simp

lemma zc_nonneg: "0 \<le> zc N t x hi"
  by (simp add: zc_def zr_nonneg)

lemma zc_mono_targets: "t \<le> t' \<Longrightarrow> zc N t' x hi \<le> zc N t x hi"
  by (auto simp: zc_def zr_mono_targets)

lemma zc_mono_draws: "js_le x x' \<Longrightarrow> zc N t x' hi \<le> zc N t x hi"
  using js_le_not_NaN [of x x'] by (simp add: zc_def zr_mono_draws count_mono)

lemma floorClamp_NaN: "floorClamp NaN hi = NaN"
  by (simp add: floorClamp_def)

lemma summation_sumc:
  "summation (Fin (real n)) (floorClamp l 40) = Fin (sumc n l)"
  by (cases "l = NaN")
     (simp_all add: floorClamp_NaN summation_NaN floorClamp_count summation_nat sumc_def)

lemma sumc_nonneg: "0 \<le> sumc n l"
  by (simp add: sumc_def noKeepSum_nonneg)

lemma sumc_mono_targets: "n \<le> n' \<Longrightarrow> sumc n' l \<le> sumc n l"
  by (simp add: sumc_def noKeepSum_mono_targets)

lemma count_below_37: "js_lt l (Fin 37) \<Longrightarrow> count 40 l \<le> 36"
proof (cases l)
  case (Fin r)
  assume "js_lt l (Fin 37)"
  with Fin have "r < 37" by simp
  then have "\<lfloor>r\<rfloor> < 37" by (simp add: floor_less_iff)
  then have "nat (max 0 (min 40 \<lfloor>r\<rfloor>)) \<le> 36" by linarith
  with Fin show ?thesis by (simp add: count_def)
qed (simp_all add: count_def)

lemma sumc_mono_mulligan:
  assumes "js_le l l'" "js_lt l' (Fin 37)"
  shows "sumc n l' \<le> sumc n l"
  using assms js_le_not_NaN [of l l']
  by (simp add: sumc_def noKeepSum_mono_mulligan count_mono count_below_37)

lemma keep_count:
  assumes "n \<noteq> NaN"
  shows "probabilityAtLeastOne Keep l n m =
    Some (Fin (max 0 (min 1 (1 - zr 40 (count 40 n) 4 * zc 36 (count 40 n) l 40
                                   * zc 36 (count 40 n) m 40))))"
  using assms
  by (simp add: keep_is_formula floorClamp_count [of n] zeroHit_spec_zc_36 zeroHit_spec_40_4)

lemma keepOnly_count:
  assumes "n \<noteq> NaN"
  shows "probabilityAtLeastOneKeep n l m =
    Some (Fin (max 0 (min 1 (1 - zc 36 (count 40 n) l 4 * zc 36 (count 40 n) m 40))))"
  using assms by (simp add: keepOnly_is_formula floorClamp_count [of n] zeroHit_spec_zc_36)

lemma noKeep_count:
  assumes "n \<noteq> NaN"
  shows "probabilityAtLeastOne NoKeep l n m =
    Some (Fin (max 0 (min 1 (1 - zc 36 (count 40 n) m 40 * sumc (count 40 n) l))))"
  using assms
  by (simp add: noKeep_is_formula noKeep_spec_def Q_m_def floorClamp_count [of n]
      zeroHit_spec_zc_36 summation_sumc)

lemma mono_draws:
  assumes "n \<noteq> NaN" "js_le m m'"
  shows "prob_le (probabilityAtLeastOne keepMode l n m) (probabilityAtLeastOne keepMode l n m')"
    and "prob_le (probabilityAtLeastOneKeep n l m) (probabilityAtLeastOneKeep n l m')"
proof -
  note z = zc_mono_draws [OF assms(2)]
  show "prob_le (probabilityAtLeastOne keepMode l n m) (probabilityAtLeastOne keepMode l n m')"
  proof (cases keepMode)
    case Keep
    show ?thesis
      unfolding Keep keep_count [OF assms(1)]
      by (intro prob_le_clamp mult3_mono z zr_nonneg zc_nonneg order_refl)
  next
    case NoKeep
    show ?thesis
      unfolding NoKeep noKeep_count [OF assms(1)]
      by (intro prob_le_clamp mult2_mono z zc_nonneg sumc_nonneg order_refl)
  qed
  show "prob_le (probabilityAtLeastOneKeep n l m) (probabilityAtLeastOneKeep n l m')"
    unfolding keepOnly_count [OF assms(1)]
    by (intro prob_le_clamp mult2_mono z zc_nonneg order_refl)
qed

lemma mono_mulligan:
  assumes "n \<noteq> NaN" "js_le l l'"
  shows "prob_le (probabilityAtLeastOne Keep l n m) (probabilityAtLeastOne Keep l' n m)"
    and "prob_le (probabilityAtLeastOneKeep n l m) (probabilityAtLeastOneKeep n l' m)"
    and "js_lt l' (Fin 37) \<Longrightarrow>
         prob_le (probabilityAtLeastOne NoKeep l n m) (probabilityAtLeastOne NoKeep l' n m)"
proof -
  note z = zc_mono_draws [OF assms(2)]
  show "prob_le (probabilityAtLeastOne Keep l n m) (probabilityAtLeastOne Keep l' n m)"
    unfolding keep_count [OF assms(1)]
    by (intro prob_le_clamp mult3_mono z zr_nonneg zc_nonneg order_refl)
  show "prob_le (probabilityAtLeastOneKeep n l m) (probabilityAtLeastOneKeep n l' m)"
    unfolding keepOnly_count [OF assms(1)]
    by (intro prob_le_clamp mult2_mono z zc_nonneg order_refl)
  show "prob_le (probabilityAtLeastOne NoKeep l n m) (probabilityAtLeastOne NoKeep l' n m)"
    if lt: "js_lt l' (Fin 37)"
    unfolding noKeep_count [OF assms(1)]
    by (intro prob_le_clamp mult2_mono sumc_mono_mulligan [OF assms(2) lt] zc_nonneg
        sumc_nonneg order_refl)
qed

lemma mono_targets:
  assumes "js_le n n'"
  shows "prob_le (probabilityAtLeastOne keepMode l n m) (probabilityAtLeastOne keepMode l n' m)"
    and "prob_le (probabilityAtLeastOneKeep n l m) (probabilityAtLeastOneKeep n' l m)"
proof -
  have nn: "n \<noteq> NaN" "n' \<noteq> NaN" using assms js_le_not_NaN by blast+
  have c: "count 40 n \<le> count 40 n'" using assms by (simp add: count_mono)
  note z = zc_mono_targets [OF c] zr_mono_targets [OF c]
  show "prob_le (probabilityAtLeastOne keepMode l n m) (probabilityAtLeastOne keepMode l n' m)"
  proof (cases keepMode)
    case Keep
    show ?thesis
      unfolding Keep keep_count [OF nn(1)] keep_count [OF nn(2)]
      by (intro prob_le_clamp mult3_mono z zr_nonneg zc_nonneg)
  next
    case NoKeep
    show ?thesis
      unfolding NoKeep noKeep_count [OF nn(1)] noKeep_count [OF nn(2)]
      by (intro prob_le_clamp mult2_mono z zc_nonneg sumc_nonneg sumc_mono_targets [OF c])
  qed
  show "prob_le (probabilityAtLeastOneKeep n l m) (probabilityAtLeastOneKeep n' l m)"
    unfolding keepOnly_count [OF nn(1)] keepOnly_count [OF nn(2)]
    by (intro prob_le_clamp mult2_mono z zc_nonneg)
qed

text \<open>
  Claim C7 says that \<^verbatim>\<open>probabilityAtLeastOne\<close> (both policies) and
  \<^verbatim>\<open>probabilityAtLeastOneKeep\<close> are non-decreasing in \<open>m\<close>, in \<open>l\<close> and in \<open>n\<close>.  Under
  the no-keep policy with one target and no later draw, 36 mulligan cards give 1/2 and 37
  give 36/73: beyond 36 cards every zero-hit term with a target left is 0 and only the
  weight of the term \<open>k = n\<close> remains, which grows with \<open>l\<close>.
\<close>

theorem probability_monotone_counterexample:
  "js_le (Fin 36) (Fin 37)
   \<and> probabilityAtLeastOne NoKeep (Fin 36) (Fin 1) (Fin 0) = Some (Fin (1 / 2))
   \<and> probabilityAtLeastOne NoKeep (Fin 37) (Fin 1) (Fin 0) = Some (Fin (36 / 73))
   \<and> \<not> prob_le (probabilityAtLeastOne NoKeep (Fin 36) (Fin 1) (Fin 0))
               (probabilityAtLeastOne NoKeep (Fin 37) (Fin 1) (Fin 0))"
proof -
  have a: "probabilityAtLeastOne NoKeep (Fin 36) (Fin 1) (Fin 0) = Some (Fin (1 / 2))"
    by (simp add: probabilityAtLeastOne_def zeroHitHypergeometricRatio_def zeroHit_loop.simps
      noKeep_loop.simps plTerm_def combination_def combination_loop.simps clamp_def)
  have b: "probabilityAtLeastOne NoKeep (Fin 37) (Fin 1) (Fin 0) = Some (Fin (36 / 73))"
    by (simp add: probabilityAtLeastOne_def zeroHitHypergeometricRatio_def zeroHit_loop.simps
      noKeep_loop.simps plTerm_def combination_def combination_loop.simps clamp_def)
  show ?thesis
    by (simp add: a b)
qed

text \<open>
  Claim C7, amended.  For a target count other than \<^verbatim>\<open>NaN\<close>, both policies of
  \<^verbatim>\<open>probabilityAtLeastOne\<close> and \<^verbatim>\<open>probabilityAtLeastOneKeep\<close> are non-decreasing in the
  later-draw count \<open>m\<close>; the keep policy and \<^verbatim>\<open>probabilityAtLeastOneKeep\<close> are
  non-decreasing in the mulligan count \<open>l\<close>, and the no-keep policy is non-decreasing in
  \<open>l\<close> as long as the larger count is below 37; all three are non-decreasing in the target
  count \<open>n\<close>.  The argument that varies is compared by \<^verbatim>\<open><=\<close>; the arguments held fixed
  are arbitrary.
\<close>

theorem probability_monotone:
  "(n \<noteq> NaN \<and> js_le m m' \<longrightarrow>
      prob_le (probabilityAtLeastOne keepMode l n m) (probabilityAtLeastOne keepMode l n m')
    \<and> prob_le (probabilityAtLeastOneKeep n l m) (probabilityAtLeastOneKeep n l m'))
   \<and> (n \<noteq> NaN \<and> js_le l l' \<longrightarrow>
      prob_le (probabilityAtLeastOne Keep l n m) (probabilityAtLeastOne Keep l' n m)
    \<and> prob_le (probabilityAtLeastOneKeep n l m) (probabilityAtLeastOneKeep n l' m)
    \<and> (js_lt l' (Fin 37) \<longrightarrow>
         prob_le (probabilityAtLeastOne NoKeep l n m) (probabilityAtLeastOne NoKeep l' n m)))
   \<and> (js_le n n' \<longrightarrow>
      prob_le (probabilityAtLeastOne keepMode l n m) (probabilityAtLeastOne keepMode l n' m)
    \<and> prob_le (probabilityAtLeastOneKeep n l m) (probabilityAtLeastOneKeep n' l m))"
  using mono_draws [of n m m'] mono_mulligan [of n l l'] mono_targets [of n n']
  by simp

theorem probability_monotone_witness:
  "Fin 3 \<noteq> NaN \<and> js_le (Fin 1) (Fin 5) \<and> js_le (Fin 2) (Fin 3) \<and> js_lt (Fin 3) (Fin 37)
   \<and> js_le (Fin 3) (Fin 4)
   \<and> prob_le (probabilityAtLeastOne NoKeep (Fin 2) (Fin 3) (Fin 1))
              (probabilityAtLeastOne NoKeep (Fin 2) (Fin 3) (Fin 5))
   \<and> prob_le (probabilityAtLeastOne NoKeep (Fin 2) (Fin 3) (Fin 1))
              (probabilityAtLeastOne NoKeep (Fin 3) (Fin 3) (Fin 1))
   \<and> prob_le (probabilityAtLeastOne NoKeep (Fin 2) (Fin 3) (Fin 1))
              (probabilityAtLeastOne NoKeep (Fin 2) (Fin 4) (Fin 1))
   \<and> prob_le (probabilityAtLeastOneKeep (Fin 3) (Fin 2) (Fin 1))
              (probabilityAtLeastOneKeep (Fin 4) (Fin 2) (Fin 1))"
  using probability_monotone [of "Fin 3" "Fin 1" "Fin 5" NoKeep "Fin 2" "Fin 3" "Fin 4"]
  by simp

section \<open>Rounding to the nearest double\<close>

text \<open>Rounding to the nearest integer is monotone and leaves the integers alone.\<close>

lemma rne_floor: "\<lfloor>r\<rfloor> \<le> rne r" and rne_ceil: "rne r \<le> \<lfloor>r\<rfloor> + 1"
  by (simp_all add: rne_def)

lemma rne_of_int [simp]: "rne (of_int n) = n"
  by (simp add: rne_def)

lemma rne_0 [simp]: "rne 0 = 0"
  using rne_of_int [of 0] by simp

lemma pow2_le_D: "(2::real) powi a \<le> 2 powi b \<Longrightarrow> a \<le> b"
  using power_int_strict_increasing [of b a "2::real"] by (cases "a \<le> b") simp_all

lemma rne_mono: "a \<le> b \<Longrightarrow> rne a \<le> rne b"
proof (cases "\<lfloor>a\<rfloor> = \<lfloor>b\<rfloor>")
  case True
  assume "a \<le> b"
  then have "a - of_int \<lfloor>a\<rfloor> \<le> b - of_int \<lfloor>b\<rfloor>" using True by simp
  then show ?thesis using True by (auto simp: rne_def)
next
  case False
  assume "a \<le> b"
  then have "\<lfloor>a\<rfloor> \<le> \<lfloor>b\<rfloor>" by (rule floor_mono)
  with False have "\<lfloor>a\<rfloor> + 1 \<le> \<lfloor>b\<rfloor>" by simp
  with rne_ceil [of a] rne_floor [of b] show ?thesis by linarith
qed

lemma rne_small: "0 \<le> a \<Longrightarrow> a < 1 / 2 \<Longrightarrow> rne a = 0"
proof -
  assume a: "0 \<le> a" "a < 1 / 2"
  then have "\<lfloor>a\<rfloor> = 0" by (simp add: floor_eq_iff)
  with a show ?thesis by (simp add: rne_def)
qed

lemma quantum_pos: "0 < quantum x"
  by (simp add: quantum_def)

lemma binade_ge: "- 1022 \<le> binade x"
  by (simp add: binade_def)

lemma binade_normal:
  assumes "- 1022 < binade x"
  shows "2 powi binade x \<le> \<bar>x\<bar>"
proof -
  have x: "x \<noteq> 0" and b: "binade x = \<lfloor>log 2 \<bar>x\<bar>\<rfloor>"
    using assms by (auto simp: binade_def split: if_splits)
  have "2 powr of_int \<lfloor>log 2 \<bar>x\<bar>\<rfloor> \<le> \<bar>x\<bar>"
    using floor_log_eq_powr_iff [of "\<bar>x\<bar>" 2 "\<lfloor>log 2 \<bar>x\<bar>\<rfloor>"] x by simp
  then show ?thesis
    by (simp add: b powr_real_of_int')
qed

lemma binade_small:
  assumes "0 \<le> x" "x < 2 powi (- 1022)"
  shows "binade x = - 1022"
proof (cases "x = 0")
  case False
  with assms have pos: "0 < x" by simp
  have "\<lfloor>log 2 x\<rfloor> \<le> - 1022"
  proof (rule ccontr)
    assume "\<not> \<lfloor>log 2 x\<rfloor> \<le> - 1022"
    then have "- 1022 < binade x" using pos by (simp add: binade_def)
    from binade_normal [OF this] have "2 powi binade x \<le> x" using pos by simp
    moreover have "2 powi (- 1022) \<le> (2::real) powi binade x"
      using binade_ge [of x] by (intro power_int_increasing) simp_all
    ultimately show False using assms by linarith
  qed
  with pos show ?thesis by (simp add: binade_def)
qed (simp add: binade_def)

lemma pow2_split:
  assumes "j \<le> k"
  shows "(2::real) powi k = of_int (2 ^ nat (k - j)) * 2 powi j"
proof -
  have "(2::real) powi k = 2 powi (k - j) * 2 powi j"
    by (simp flip: power_int_add)
  also have "(2::real) powi (k - j) = 2 ^ nat (k - j)"
    using assms by (simp add: power_int_nonneg_exp)
  finally show ?thesis by simp
qed

lemma fl_nonneg: "0 \<le> x \<Longrightarrow> 0 \<le> fl x"
proof -
  assume "0 \<le> x"
  then have "0 \<le> x / quantum x" using quantum_pos [of x] by simp
  then have "rne 0 \<le> rne (x / quantum x)" by (rule rne_mono)
  then show ?thesis using quantum_pos [of x] by (simp add: fl_def)
qed

lemma fl_le_pow2:
  assumes "0 \<le> x" "x \<le> 2 powi k" "- 1074 \<le> k"
  shows "fl x \<le> 2 powi k"
proof -
  have jk: "binade x - 52 \<le> k"
  proof (cases "- 1022 < binade x")
    case True
    from binade_normal [OF this] have "2 powi binade x \<le> (2::real) powi k"
      using assms by simp
    then have "binade x \<le> k" by (rule pow2_le_D)
    then show ?thesis by simp
  next
    case False
    with binade_ge [of x] assms show ?thesis by simp
  qed
  define N :: int where "N = 2 ^ nat (k - (binade x - 52))"
  have k: "2 powi k = of_int N * quantum x"
    unfolding N_def quantum_def by (rule pow2_split [OF jk])
  then have "x / quantum x \<le> of_int N"
    using assms quantum_pos [of x] by (simp add: field_simps)
  then have "rne (x / quantum x) \<le> rne (of_int N)" by (rule rne_mono)
  then have "of_int (rne (x / quantum x)) * quantum x \<le> of_int N * quantum x"
    using quantum_pos [of x] by simp
  then show ?thesis by (simp add: fl_def k)
qed

lemma fl_ge_pow2:
  assumes "2 powi k \<le> x" "- 1074 \<le> k"
  shows "2 powi k \<le> fl x"
proof -
  define m where "m = max k (binade x - 52)"
  have xpos: "0 < x" using assms(1) zero_less_power_int [of "2::real" k] by linarith
  have mx: "2 powi m \<le> x"
  proof (cases "k \<le> binade x - 52")
    case False
    then show ?thesis using assms by (simp add: m_def max_def)
  next
    case True
    with assms have "- 1022 < binade x \<or> k = binade x - 52" by linarith
    then show ?thesis
    proof
      assume "- 1022 < binade x"
      from binade_normal [OF this] have "2 powi binade x \<le> x" using xpos by simp
      moreover have "(2::real) powi (binade x - 52) \<le> 2 powi binade x"
        by (intro power_int_increasing) simp_all
      ultimately show ?thesis using True by (simp add: m_def max_def)
    next
      assume "k = binade x - 52"
      then show ?thesis using assms by (simp add: m_def)
    qed
  qed
  define N :: int where "N = 2 ^ nat (m - (binade x - 52))"
  have m: "2 powi m = of_int N * quantum x"
    unfolding N_def quantum_def by (rule pow2_split) (simp add: m_def)
  then have "of_int N \<le> x / quantum x"
    using mx quantum_pos [of x] by (simp add: field_simps)
  then have "rne (of_int N) \<le> rne (x / quantum x)" by (rule rne_mono)
  then have "of_int N * quantum x \<le> of_int (rne (x / quantum x)) * quantum x"
    using quantum_pos [of x] by simp
  then have "2 powi m \<le> fl x" by (simp add: fl_def m)
  moreover have "(2::real) powi k \<le> 2 powi m"
    by (intro power_int_increasing) (simp_all add: m_def)
  ultimately show ?thesis by linarith
qed

lemma fl_underflow:
  assumes "0 \<le> x" "x < 2 powi (- 1075)"
  shows "fl x = 0"
proof -
  have "(2::real) powi (- 1075) \<le> 2 powi (- 1022)"
    by (intro power_int_increasing) simp_all
  with assms have b: "binade x = - 1022" by (intro binade_small) simp_all
  have q: "quantum x = 2 powi (- 1074)" by (simp add: quantum_def b)
  have "(2::real) powi (- 1075) = 2 powi (- 1074) / 2"
    by (simp add: power_int_diff [of 2 "- 1074" 1, simplified])
  then have "x / quantum x < 1 / 2"
    using assms by (simp add: q field_simps)
  moreover have "0 \<le> x / quantum x" using assms quantum_pos [of x] by simp
  ultimately have "rne (x / quantum x) = 0" by (intro rne_small)
  then show ?thesis by (simp add: fl_def)
qed

lemma pow2_less_D: "x < (2::real) powi b \<Longrightarrow> 2 powi a \<le> x \<Longrightarrow> a < b"
  using power_int_increasing [of b a "2::real"] by (cases "a < b") simp_all

lemma fl_exact: "x = of_int N * quantum x \<Longrightarrow> fl x = x"
proof -
  assume x: "x = of_int N * quantum x"
  then have "x / quantum x = of_int N"
    using quantum_pos [of x] by (simp add: field_simps)
  then have "fl x = of_int N * quantum x"
    by (simp add: fl_def)
  with x show ?thesis by simp
qed

lemma fl_of_nat:
  assumes "real n < 2 ^ 53"
  shows "fl (real n) = real n"
proof -
  have e: "binade (real n) - 52 \<le> 0"
  proof (cases "- 1022 < binade (real n)")
    case True
    from binade_normal [OF this] have "2 powi binade (real n) \<le> real n" by simp
    moreover have "real n < 2 powi 53" using assms by simp
    ultimately have "binade (real n) < 53" by (rule pow2_less_D [rotated])
    then show ?thesis by simp
  next
    case False
    with binade_ge [of "real n"] show ?thesis by simp
  qed
  from pow2_split [OF e] have "1 = real_of_int (2 ^ nat (0 - (binade (real n) - 52))) * quantum (real n)"
    by (simp add: quantum_def)
  then have "real n = of_int (int n * 2 ^ nat (0 - (binade (real n) - 52))) * quantum (real n)"
    by (simp add: mult.assoc)
  then show ?thesis by (rule fl_exact)
qed

lemma dbl_Fin:
  assumes "0 \<le> x" "x \<le> 2 powi k" "- 1074 \<le> k" "k < 1024"
  shows "dbl x = Fin (fl x)"
proof -
  have "fl x \<le> 2 powi k" using assms by (intro fl_le_pow2)
  moreover have "(2::real) powi k < 2 powi 1024"
    using assms by (intro power_int_strict_increasing) simp_all
  moreover have "0 \<le> fl x" using assms by (intro fl_nonneg)
  ultimately show ?thesis by (simp add: dbl_def)
qed

lemma dbl_of_nat: "real n < 2 ^ 53 \<Longrightarrow> dbl (real n) = Fin (real n)"
proof -
  assume n: "real n < 2 ^ 53"
  then have "real n \<le> 2 powi 53" by simp
  then have "dbl (real n) = Fin (fl (real n))" by (intro dbl_Fin [where k = 53]) simp_all
  with n show ?thesis by (simp add: fl_of_nat)
qed

text \<open>
  Rounding to the nearest integer moves a number by at most \<open>1 / 2\<close>, so rounding to
  the nearest double loses at most the fraction \<open>2 ^ (- 53)\<close> of a value that is not
  below the smallest normal number \<open>2 ^ (- 1022)\<close>.
\<close>

lemma rne_err: "real_of_int (rne r) \<ge> r - 1 / 2"
  unfolding rne_def by (auto; linarith)

lemma fl_rel:
  assumes "2 powi (- 1022) \<le> x"
  shows "x * (1 - 2 powi (- 53)) \<le> fl x"
proof -
  have xpos: "0 < x" using assms zero_less_power_int [of "2::real" "- 1022"] by linarith
  have e: "2 powi binade x \<le> x"
  proof (cases "- 1022 < binade x")
    case True
    from binade_normal [OF this] xpos show ?thesis by simp
  next
    case False
    with binade_ge [of x] have "binade x = - 1022" by simp
    with assms show ?thesis by simp
  qed
  have "(2::real) powi (binade x - 52 + (- 1)) = 2 powi (binade x - 52) * 2 powi (- 1)"
    by (rule power_int_add) simp
  then have half: "quantum x / 2 = 2 powi (binade x - 53)"
    by (simp add: quantum_def power_int_minus_divide)
  have "(2::real) powi (binade x + (- 53)) = 2 powi binade x * 2 powi (- 53)"
    by (rule power_int_add) simp
  then have "quantum x / 2 = 2 powi binade x * 2 powi (- 53)"
    using half by simp
  also have "\<dots> \<le> x * 2 powi (- 53)"
    using e by (intro mult_right_mono) simp_all
  finally have q: "quantum x / 2 \<le> x * 2 powi (- 53)" .
  have "(x / quantum x - 1 / 2) * quantum x \<le> of_int (rne (x / quantum x)) * quantum x"
    using rne_err [of "x / quantum x"] quantum_pos [of x] by (intro mult_right_mono) simp_all
  moreover have "(x / quantum x - 1 / 2) * quantum x = x - quantum x / 2"
    using quantum_pos [of x] by (simp add: field_simps)
  ultimately have "x - quantum x / 2 \<le> fl x" by (simp add: fl_def)
  with q show ?thesis by (simp add: algebra_simps)
qed

text \<open>
  The exponent of the binade is the bit length of the integer part, or of the integer
  part of the inverse; with this equation the rounded operations can be evaluated.
\<close>

lemma floor_log2_eqI:
  assumes "0 < x" "2 powi k \<le> x" "x < 2 powi (k + 1)"
  shows "\<lfloor>log 2 x\<rfloor> = k"
proof -
  have "2 powr real_of_int k \<le> x" "x < 2 powr (real_of_int k + 1)"
    using assms powr_real_of_int' [of 2 k] powr_real_of_int' [of 2 "k + 1"]
    by (simp_all add: add.commute)
  then show ?thesis
    using assms(1) by (simp add: floor_log_eq_powr_iff)
qed

lemma floor_log2_large:
  assumes "1 \<le> y"
  shows "\<lfloor>log 2 y\<rfloor> = bitlen \<lfloor>y\<rfloor> - 1"
proof -
  define n where "n = \<lfloor>y\<rfloor>"
  have n: "0 < n" using assms by (simp add: n_def)
  from bitlen_bounds [OF n] have b: "2 ^ nat (bitlen n - 1) \<le> n" "n < 2 ^ nat (bitlen n)"
    by simp_all
  have b1: "1 \<le> bitlen n" using n bitlen_eq_zero_iff [of n] bitlen_nonneg [of n] by linarith
  have "real_of_int (2 ^ nat (bitlen n - 1)) \<le> real_of_int n" using b(1) by (simp only: of_int_le_iff)
  also have "\<dots> \<le> y" by (simp add: n_def)
  finally have lo: "2 powi (bitlen n - 1) \<le> y"
    using b1 by (simp add: power_int_nonneg_exp)
  have "n + 1 \<le> 2 ^ nat (bitlen n)" using b(2) by simp
  then have "real_of_int (n + 1) \<le> real_of_int (2 ^ nat (bitlen n))" by (simp only: of_int_le_iff)
  moreover have "y < real_of_int (n + 1)" by (simp add: n_def)
  ultimately have hi: "y < 2 powi (bitlen n - 1 + 1)"
    using b1 by (simp add: power_int_nonneg_exp)
  have "0 < y" using assms by simp
  from floor_log2_eqI [OF this lo hi] show ?thesis by (simp add: n_def)
qed

lemma floor_log2_small:
  assumes "0 < y" "y < 1"
  shows "\<lfloor>log 2 y\<rfloor> = - bitlen (\<lceil>1 / y\<rceil> - 1)"
proof -
  define z where "z = 1 / y"
  define m where "m = \<lceil>z\<rceil> - 1"
  have z1: "1 < z" using assms by (simp add: z_def)
  then have m: "0 < m" by (simp add: m_def less_ceiling_iff)
  from bitlen_bounds [OF m] have b: "2 ^ nat (bitlen m - 1) \<le> m" "m < 2 ^ nat (bitlen m)"
    by simp_all
  have b1: "1 \<le> bitlen m" using m bitlen_eq_zero_iff [of m] bitlen_nonneg [of m] by linarith
  have mz: "real_of_int m < z" "z \<le> real_of_int m + 1"
    unfolding m_def by linarith+
  have "real_of_int (2 ^ nat (bitlen m - 1)) \<le> real_of_int m" using b(1) by (simp only: of_int_le_iff)
  then have "(2::real) ^ nat (bitlen m - 1) \<le> real_of_int m" by simp
  with mz(1) have zlo: "2 ^ nat (bitlen m - 1) < z" by linarith
  have "m + 1 \<le> 2 ^ nat (bitlen m)" using b(2) by simp
  then have "real_of_int (m + 1) \<le> real_of_int (2 ^ nat (bitlen m))" by (simp only: of_int_le_iff)
  then have "real_of_int m + 1 \<le> (2::real) ^ nat (bitlen m)" by simp
  with mz(2) have zhi: "z \<le> 2 ^ nat (bitlen m)" by linarith
  have y: "y = 1 / z" using assms by (simp add: z_def)
  have lo: "2 powi (- bitlen m) \<le> y"
  proof -
    have "1 / 2 ^ nat (bitlen m) \<le> 1 / z"
      using zhi z1 by (intro divide_left_mono) simp_all
    then show ?thesis using b1 by (simp add: y power_int_minus_divide power_int_nonneg_exp)
  qed
  have hi: "y < 2 powi (- bitlen m + 1)"
  proof -
    have "1 / z < 1 / 2 ^ nat (bitlen m - 1)"
      using zlo z1 by (intro divide_strict_left_mono mult_pos_pos) simp_all
    moreover have "(2::real) powi (- bitlen m + 1) = 1 / 2 ^ nat (bitlen m - 1)"
    proof -
      have "- bitlen m + 1 = - (bitlen m - 1)" by simp
      then have "(2::real) powi (- bitlen m + 1) = 1 / 2 powi (bitlen m - 1)"
        by (simp only: power_int_minus_divide)
      then show ?thesis using b1 by (simp add: power_int_nonneg_exp)
    qed
    ultimately show ?thesis by (simp add: y)
  qed
  from floor_log2_eqI [OF assms(1) lo hi] show ?thesis by (simp add: m_def z_def)
qed

lemma binade_code [code]:
  "binade x =
     (if x = 0 then - 1022
      else max (if 1 \<le> \<bar>x\<bar> then bitlen \<lfloor>\<bar>x\<bar>\<rfloor> - 1 else - bitlen (\<lceil>1 / \<bar>x\<bar>\<rceil> - 1)) (- 1022))"
  by (simp add: binade_def floor_log2_large floor_log2_small)

section \<open>The rounded zero-hit ratio\<close>

text \<open>Integers below \<open>2 ^ 53\<close> are subtracted exactly.\<close>

lemma d_sub_nat:
  "k \<le> n \<Longrightarrow> real n < 2 ^ 53 \<Longrightarrow> d_sub (Fin (real n)) (Fin (real k)) = Fin (real (n - k))"
proof -
  assume a: "k \<le> n" "real n < 2 ^ 53"
  then have "real (n - k) < 2 ^ 53" by simp
  then have "dbl (real (n - k)) = Fin (real (n - k))" by (rule dbl_of_nat)
  with a show ?thesis by (simp add: of_nat_diff)
qed

lemma d_div_Fin: "y \<noteq> 0 \<Longrightarrow> d_div (Fin x) (Fin y) = dbl (x / y)"
  by simp

text \<open>One round of the loop, and its end.\<close>

lemma zeroHit_loop_double_step:
  assumes "js_lt (Fin (real i)) draws"
    and "\<not> js_le (d_sub nonTargets (Fin (real i))) (Fin 0)"
  shows "zeroHit_loop_double nonTargets total' draws i p =
         zeroHit_loop_double nonTargets total' draws (i + 1)
           (d_mul p (factor_double nonTargets total' i))"
  using assms by (subst zeroHit_loop_double.simps) (simp add: factor_double_def)

lemma zeroHit_loop_double_exit:
  "\<not> js_lt (Fin (real i)) draws \<Longrightarrow> zeroHit_loop_double nonTargets total' draws i p = Some p"
  by (subst zeroHit_loop_double.simps) simp

text \<open>
  The exact product of the factors is a quotient of two binomial coefficients, so it is
  at least \<open>2 ^ (- N)\<close> in a deck of \<open>N\<close> cards.
\<close>

lemma zprod_lower:
  assumes "d \<le> a" "a \<le> N"
  shows "2 powi (- int N) \<le> zprod N (N - a) d"
proof -
  have dN: "d \<le> N" using assms by simp
  have z: "zprod N (N - a) d = real (a choose d) / real (N choose d)"
    using zprod_binomial [OF dN, of "N - a"] assms by simp
  have "1 \<le> a choose d" using assms(1) by (simp add: Suc_le_eq)
  then have one: "1 \<le> real (a choose d)" by simp
  have "N choose d \<le> 2 ^ N" by (rule binomial_le_pow2)
  then have "real (N choose d) \<le> real (2 ^ N)" by (simp only: of_nat_le_iff)
  then have le: "real (N choose d) \<le> 2 ^ N" by simp
  have pos: "0 < real (N choose d)" using dN by simp
  have "1 / 2 ^ N \<le> 1 / real (N choose d)"
    using le pos by (intro divide_left_mono) simp_all
  also have "\<dots> \<le> real (a choose d) / real (N choose d)"
    using one pos by (intro divide_right_mono) simp_all
  finally show ?thesis by (simp add: z power_int_minus_divide)
qed

lemma rel_power_half:
  assumes "k \<le> 2001"
  shows "1 / 2 \<le> (1 - 2 powi (- 53) :: real) ^ k"
proof -
  define u :: real where "u = 2 powi (- 53)"
  have u: "u = 1 / 2 ^ 53" by (simp add: u_def power_int_minus_divide)
  have "1 + real k * (- u) \<le> (1 + (- u)) ^ k"
    by (rule Bernoulli_inequality) (simp add: u)
  moreover have "real k * u \<le> 2001 * u"
    using assms by (intro mult_right_mono) (simp_all add: u)
  moreover have "2001 * u \<le> 1 / 2" by (simp add: u)
  ultimately show ?thesis by (simp add: u_def)
qed

lemma zprod_bound:
  assumes "d \<le> a" "a \<le> N" "N \<le> 1000" "k \<le> 2001"
  shows "2 powi (- 1001) \<le> zprod N (N - a) d * (1 - 2 powi (- 53)) ^ k"
proof -
  have "(2::real) powi (- 1000) \<le> 2 powi (- int N)"
    using assms by (intro power_int_increasing) simp_all
  also have "\<dots> \<le> zprod N (N - a) d" using assms by (intro zprod_lower)
  finally have z: "2 powi (- 1000) \<le> zprod N (N - a) d" .
  have "(2::real) powi (- 1000 + (- 1)) = 2 powi (- 1000) * 2 powi (- 1)"
    by (rule power_int_add) simp
  then have "(2::real) powi (- 1001) = 2 powi (- 1000) * (1 / 2)"
    by (simp add: power_int_minus_divide)
  also have "\<dots> \<le> zprod N (N - a) d * (1 - 2 powi (- 53)) ^ k"
    using z rel_power_half [OF assms(4)] by (intro mult_mono) simp_all
  finally show ?thesis .
qed

text \<open>
  In a deck of at most 1000 cards every factor is at least \<open>1 / 1024\<close>, and after \<open>i\<close>
  rounds the rounded product is at least the exact one times
  \<open>(1 - 2 ^ (- 53)) ^ (2 * i)\<close>: one rounding for the division and one for the
  multiplication of each round.  This is above \<open>2 ^ (- 1001)\<close>, so no product leaves the
  normal numbers.
\<close>

lemma factor_double_rel:
  assumes "i < a" "a \<le> N" "N \<le> 1000"
  shows "\<exists>f. factor_double (Fin (real a)) (Fin (real N)) i = Fin f
           \<and> real (a - i) / real (N - i) * (1 - 2 powi (- 53)) \<le> f \<and> 0 < f \<and> f \<le> 1"
proof -
  have num: "d_sub (Fin (real a)) (Fin (real i)) = Fin (real (a - i))"
    using assms by (intro d_sub_nat) simp_all
  have den: "d_sub (Fin (real N)) (Fin (real i)) = Fin (real (N - i))"
    using assms by (intro d_sub_nat) simp_all
  define q where "q = real (a - i) / real (N - i)"
  have pos: "0 < real (N - i)" "1 \<le> real (a - i)" "real (a - i) \<le> real (N - i)"
    "real (N - i) \<le> 1024"
    using assms by simp_all
  have q1: "q \<le> 1" using pos by (simp add: q_def)
  have "1 / 1024 \<le> 1 / real (N - i)"
    using pos by (simp add: field_simps)
  also have "\<dots> \<le> q"
    using pos unfolding q_def by (intro divide_right_mono) simp_all
  finally have q10: "2 powi (- 10) \<le> q" by (simp add: power_int_minus_divide)
  have q0: "0 \<le> q" using pos by (simp add: q_def)
  have "dbl q = Fin (fl q)"
    using q0 q1 by (intro dbl_Fin [where k = 0]) simp_all
  moreover have "fl q \<le> 1"
    using fl_le_pow2 [of q 0] q0 q1 by simp
  moreover have "2 powi (- 10) \<le> fl q"
    using q10 by (intro fl_ge_pow2) simp_all
  then have "0 < fl q" using zero_less_power_int [of "2::real" "- 10"] by linarith
  moreover have "q * (1 - 2 powi (- 53)) \<le> fl q"
  proof (rule fl_rel)
    have "(2::real) powi (- 1022) \<le> 2 powi (- 10)" by (intro power_int_increasing) simp_all
    with q10 show "2 powi (- 1022) \<le> q" by linarith
  qed
  moreover have "factor_double (Fin (real a)) (Fin (real N)) i = dbl q"
  proof -
    have "real (N - i) \<noteq> 0" using pos by simp
    then have "d_div (Fin (real (a - i))) (Fin (real (N - i))) =
        dbl (real (a - i) / real (N - i))"
      by (rule d_div_Fin)
    then show ?thesis
      by (simp only: factor_double_def num den q_def)
  qed
  ultimately show ?thesis unfolding q_def by simp
qed

lemma zeroHit_loop_double_rel:
  assumes "d \<le> a" "a \<le> N" "N \<le> 1000"
  shows "i \<le> d \<Longrightarrow> zprod N (N - a) i * (1 - 2 powi (- 53)) ^ (2 * i) \<le> p \<Longrightarrow> p \<le> 1 \<Longrightarrow>
    \<exists>r. zeroHit_loop_double (Fin (real a)) (Fin (real N)) (Fin (real d)) i (Fin p) = Some (Fin r)
        \<and> zprod N (N - a) d * (1 - 2 powi (- 53)) ^ (2 * d) \<le> r \<and> r \<le> 1"
proof (induction "d - i" arbitrary: i p)
  case 0
  then have "i = d" by simp
  with 0 show ?case by (simp add: zeroHit_loop_double_exit)
next
  case (Suc k)
  define u :: real where "u = 1 - 2 powi (- 53)"
  have u0: "0 \<le> u" "u \<le> 1" by (simp_all add: u_def power_int_minus_divide)
  then have lt: "i < d" using Suc by simp
  then have ia: "i < a" and i_le: "i \<le> a" and si_le: "Suc i \<le> a" using assms by simp_all
  define q where "q = real (a - i) / real (N - i)"
  have q0: "0 \<le> q" by (simp add: q_def)
  obtain f where f: "factor_double (Fin (real a)) (Fin (real N)) i = Fin f"
      "q * u \<le> f" "0 < f" "f \<le> 1"
    using factor_double_rel [OF ia assms(2,3)] unfolding q_def u_def by blast
  have num: "d_sub (Fin (real a)) (Fin (real i)) = Fin (real (a - i))"
    using ia assms by (intro d_sub_nat) simp_all
  have ki: "2 * i \<le> 2001" "2 * i + 1 \<le> 2001" using lt assms by simp_all
  have low_i: "zprod N (N - a) i * u ^ (2 * i) \<le> p"
    using Suc.prems(2) by (simp only: u_def)
  have zi0: "0 \<le> zprod N (N - a) i * u ^ (2 * i)"
    using u0 by (intro mult_nonneg_nonneg zprod_nonneg) simp
  have p0: "0 < p"
    using zprod_bound [OF i_le assms(2,3) ki(1)] low_i zero_less_power_int [of "2::real" "- 1001"]
    unfolding u_def by linarith
  have up: "p * f \<le> 1" using Suc.prems(3) f(3,4) p0 by (simp add: mult_le_one)
  have zs: "zprod N (N - a) (Suc i) = zprod N (N - a) i * q"
    using assms by (simp add: zprod_Suc q_def)
  have "(zprod N (N - a) i * u ^ (2 * i)) * (q * u) \<le> p * f"
    using low_i f(2) zi0 q0 u0 p0 f(3) by (intro mult_mono) simp_all
  moreover have "(zprod N (N - a) i * u ^ (2 * i)) * (q * u) =
      zprod N (N - a) (Suc i) * u ^ (2 * i + 1)"
    by (simp add: zs)
  ultimately have low: "zprod N (N - a) (Suc i) * u ^ (2 * i + 1) \<le> p * f"
    by (simp only:)
  have "2 powi (- 1001) \<le> zprod N (N - a) (Suc i) * u ^ (2 * i + 1)"
    using zprod_bound [OF si_le assms(2,3) ki(2)] unfolding u_def .
  moreover have "(2::real) powi (- 1022) \<le> 2 powi (- 1001)"
    by (intro power_int_increasing) simp_all
  ultimately have normal: "2 powi (- 1022) \<le> p * f" using low by linarith
  have "dbl (p * f) = Fin (fl (p * f))"
    using up p0 f(3) by (intro dbl_Fin [where k = 0]) simp_all
  then have mul: "d_mul (Fin p) (Fin f) = Fin (fl (p * f))" by simp
  have "zprod N (N - a) (Suc i) * u ^ (2 * i + 1) * u \<le> p * f * u"
    using low u0 by (intro mult_right_mono) simp_all
  also have "\<dots> \<le> fl (p * f)"
    using fl_rel [OF normal] by (simp only: u_def)
  finally have b1: "zprod N (N - a) (Suc i) * (1 - 2 powi (- 53)) ^ (2 * Suc i) \<le> fl (p * f)"
    by (simp add: u_def mult.assoc)
  have b2: "fl (p * f) \<le> 1"
    using fl_le_pow2 [of "p * f" 0] up p0 f(3) by simp
  have run: "js_lt (Fin (real i)) (Fin (real d))" using lt by simp
  have pos: "\<not> js_le (d_sub (Fin (real a)) (Fin (real i))) (Fin 0)"
    unfolding num using ia by simp
  have "zeroHit_loop_double (Fin (real a)) (Fin (real N)) (Fin (real d)) i (Fin p) =
        zeroHit_loop_double (Fin (real a)) (Fin (real N)) (Fin (real d)) (i + 1)
          (d_mul (Fin p) (factor_double (Fin (real a)) (Fin (real N)) i))"
    by (rule zeroHit_loop_double_step [OF run pos])
  then have "zeroHit_loop_double (Fin (real a)) (Fin (real N)) (Fin (real d)) i (Fin p) =
        zeroHit_loop_double (Fin (real a)) (Fin (real N)) (Fin (real d)) (Suc i) (Fin (fl (p * f)))"
    by (simp only: f(1) mul Suc_eq_plus1)
  moreover have "k = d - Suc i" "Suc i \<le> d" using Suc.hyps(2) lt by simp_all
  ultimately show ?case
    using Suc.hyps(1) [of "Suc i" "fl (p * f)"] b1 b2 by simp
qed

lemma zeroHit_double_nat:
  assumes "1 \<le> t" "1 \<le> d" "d + t \<le> N" "N \<le> 1000"
  shows "\<exists>p. zeroHitHypergeometricRatio_double (Fin (real N)) (Fin (real t)) (Fin (real d))
              = Some (Fin p) \<and> 0 < p \<and> p \<le> 1
            \<and> zr N t d * (1 - 2 powi (- 53)) ^ (2 * d) \<le> p"
proof -
  have non: "d_sub (Fin (real N)) (Fin (real t)) = Fin (real (N - t))"
    using assms by (intro d_sub_nat) simp_all
  have run: "zeroHitHypergeometricRatio_double (Fin (real N)) (Fin (real t)) (Fin (real d)) =
        zeroHit_loop_double (Fin (real (N - t))) (Fin (real N)) (Fin (real d)) 0 (Fin 1)"
    unfolding zeroHitHypergeometricRatio_double_def non using assms by simp
  have le: "d \<le> N - t" "N - t \<le> N" using assms by simp_all
  have t: "N - (N - t) = t" using assms by simp
  have "zprod N (N - (N - t)) 0 * (1 - 2 powi (- 53)) ^ (2 * 0) \<le> (1::real)"
    by (simp add: zprod_0)
  from zeroHit_loop_double_rel [OF le assms(4) _ this]
  obtain r where r:
    "zeroHit_loop_double (Fin (real (N - t))) (Fin (real N)) (Fin (real d)) 0 (Fin 1) = Some (Fin r)"
    "zprod N t d * (1 - 2 powi (- 53)) ^ (2 * d) \<le> r" "r \<le> 1"
    unfolding t by auto
  have "2 * d \<le> 2001" using assms by simp
  from zprod_bound [OF le assms(4) this] r(2) have "0 < r"
    using zero_less_power_int [of "2::real" "- 1001"] unfolding t by linarith
  moreover have "zr N t d = zprod N t d" using assms by (simp add: zr_def)
  ultimately show ?thesis using r by (intro exI [of _ r]) (simp add: run)
qed

lemma zeroHit_loop_double_multiplies:
  assumes "i < d" "d \<le> a" "a \<le> N" "N \<le> 1000"
  shows "\<exists>f. factor_double (Fin (real a)) (Fin (real N)) i = Fin f \<and> 0 < f \<and> f \<le> 1
    \<and> (\<forall>p. zeroHit_loop_double (Fin (real a)) (Fin (real N)) (Fin (real d)) i p =
            zeroHit_loop_double (Fin (real a)) (Fin (real N)) (Fin (real d)) (i + 1)
              (d_mul p (Fin f)))"
proof -
  have ia: "i < a" using assms by simp
  obtain f where f: "factor_double (Fin (real a)) (Fin (real N)) i = Fin f"
      "0 < f" "f \<le> 1"
    using factor_double_rel [OF ia assms(3,4)] by blast
  have num: "d_sub (Fin (real a)) (Fin (real i)) = Fin (real (a - i))"
    using ia assms by (intro d_sub_nat) simp_all
  have run: "js_lt (Fin (real i)) (Fin (real d))" using assms by simp
  have pos: "\<not> js_le (d_sub (Fin (real a)) (Fin (real i))) (Fin 0)"
    unfolding num using ia by simp
  have "zeroHit_loop_double (Fin (real a)) (Fin (real N)) (Fin (real d)) i p =
        zeroHit_loop_double (Fin (real a)) (Fin (real N)) (Fin (real d)) (i + 1)
          (d_mul p (Fin f))" for p
    using zeroHit_loop_double_step [OF run pos, of "Fin (real N)" p] by (simp only: f(1))
  with f show ?thesis by blast
qed

text \<open>
  25 draws from a deck of \<open>2 ^ 53\<close> cards with 25 cards that are not targets: every
  factor is at most \<open>32 / 2 ^ 52 = 2 ^ (- 47)\<close>, the product of 23 factors is at most
  \<open>2 ^ (- 1081)\<close>, below half the smallest subnormal number \<open>2 ^ (- 1074)\<close>, and is
  rounded to 0.
\<close>

lemma factor_double_tiny:
  assumes "i < 25"
  shows "d_sub (Fin 25) (Fin (real i)) = Fin (real (25 - i))"
    and "\<exists>f. factor_double (Fin 25) (Fin (2 ^ 53)) i = Fin f \<and> 0 \<le> f \<and> f \<le> 2 powi (- 47)"
proof -
  show num: "d_sub (Fin 25) (Fin (real i)) = Fin (real (25 - i))"
    using d_sub_nat [of i 25] assms by simp
  define y :: real where "y = 2 ^ 53 - real i"
  have y: "2 powi 52 \<le> y" "y \<le> 2 powi 53" "0 \<le> y"
    using assms by (simp_all add: y_def)
  have dy: "dbl y = Fin (fl y)"
    using y by (intro dbl_Fin [where k = 53]) simp_all
  have fy: "2 powi 52 \<le> fl y"
    using y by (intro fl_ge_pow2) simp_all
  then have fy0: "fl y \<noteq> 0" "0 < fl y"
    using zero_less_power_int [of "2::real" 52] by linarith+
  define q where "q = real (25 - i) / fl y"
  have q0: "0 \<le> q" using fy0 by (simp add: q_def)
  have "q \<le> 32 / fl y"
    unfolding q_def using fy0 by (intro divide_right_mono) simp_all
  also have "\<dots> \<le> 32 / 2 powi 52"
    using fy by (intro divide_left_mono) simp_all
  also have "\<dots> = 2 powi (- 47)"
    by (simp add: power_int_minus_divide)
  finally have q47: "q \<le> 2 powi (- 47)" .
  have "dbl q = Fin (fl q)"
    using q0 q47 by (intro dbl_Fin [where k = "- 47"]) simp_all
  moreover have "fl q \<le> 2 powi (- 47)"
    using q0 q47 by (intro fl_le_pow2) simp_all
  moreover have "0 \<le> fl q" using q0 by (rule fl_nonneg)
  moreover have "factor_double (Fin 25) (Fin (2 ^ 53)) i = dbl q"
  proof -
    have "d_sub (Fin (2 ^ 53)) (Fin (real i)) = Fin (fl y)"
      using dy by (simp add: y_def)
    moreover have "d_div (Fin (real (25 - i))) (Fin (fl y)) = dbl (real (25 - i) / fl y)"
      using fy0 by (intro d_div_Fin)
    ultimately show ?thesis
      by (simp only: factor_double_def num q_def)
  qed
  ultimately show "\<exists>f. factor_double (Fin 25) (Fin (2 ^ 53)) i = Fin f \<and> 0 \<le> f \<and> f \<le> 2 powi (- 47)"
    by simp
qed

lemma zeroHit_loop_double_underflow:
  "i \<le> 25 \<Longrightarrow> 0 \<le> p \<Longrightarrow> (i \<le> 22 \<longrightarrow> p \<le> 2 powi (- 47 * int i)) \<Longrightarrow> (23 \<le> i \<longrightarrow> p = 0) \<Longrightarrow>
   zeroHit_loop_double (Fin 25) (Fin (2 ^ 53)) (Fin 25) i (Fin p) = Some (Fin 0)"
proof (induction "25 - i" arbitrary: i p)
  case 0
  then have "i = 25" by simp
  with 0 show ?case by (simp add: zeroHit_loop_double_exit)
next
  case (Suc k)
  then have lt: "i < 25" by simp
  obtain f where f: "factor_double (Fin 25) (Fin (2 ^ 53)) i = Fin f" "0 \<le> f" "f \<le> 2 powi (- 47)"
    using factor_double_tiny(2) [OF lt] by blast
  have p1: "p \<le> 1"
  proof (cases "i \<le> 22")
    case True
    then have "p \<le> 2 powi (- 47 * int i)" using Suc.prems by simp
    also have "\<dots> \<le> 2 powi 0" by (intro power_int_increasing) simp_all
    finally show ?thesis by simp
  next
    case False
    then show ?thesis using Suc.prems by simp
  qed
  have f1: "f \<le> 1"
  proof -
    have "(2::real) powi (- 47) \<le> 2 powi 0" by (intro power_int_increasing) simp_all
    with f(3) show ?thesis by simp
  qed
  have pf0: "0 \<le> p * f" using Suc.prems(2) f(2) by simp
  have pf1: "p * f \<le> 1" using p1 f1 Suc.prems(2) f(2) by (simp add: mult_le_one)
  have "dbl (p * f) = Fin (fl (p * f))"
    using pf0 pf1 by (intro dbl_Fin [where k = 0]) simp_all
  then have mul: "d_mul (Fin p) (Fin f) = Fin (fl (p * f))" by simp
  have run: "js_lt (Fin (real i)) (Fin 25)" using lt by simp
  have pos: "\<not> js_le (d_sub (Fin 25) (Fin (real i))) (Fin 0)"
    unfolding factor_double_tiny(1) [OF lt] using lt by simp
  have "zeroHit_loop_double (Fin 25) (Fin (2 ^ 53)) (Fin 25) i (Fin p) =
        zeroHit_loop_double (Fin 25) (Fin (2 ^ 53)) (Fin 25) (i + 1)
          (d_mul (Fin p) (factor_double (Fin 25) (Fin (2 ^ 53)) i))"
    by (rule zeroHit_loop_double_step [OF run pos])
  then have step: "zeroHit_loop_double (Fin 25) (Fin (2 ^ 53)) (Fin 25) i (Fin p) =
        zeroHit_loop_double (Fin 25) (Fin (2 ^ 53)) (Fin 25) (Suc i) (Fin (fl (p * f)))"
    by (simp only: f(1) mul Suc_eq_plus1)
  have bound: "p * f \<le> 2 powi (- 47 * int (Suc i))" if "i \<le> 22"
  proof -
    have "(2::real) powi (- 47 * int i + (- 47)) = 2 powi (- 47 * int i) * 2 powi (- 47)"
      by (rule power_int_add) simp
    moreover have "- 47 * int i + (- 47) = - 47 * int (Suc i)" by simp
    ultimately have split: "(2::real) powi (- 47 * int (Suc i)) = 2 powi (- 47 * int i) * 2 powi (- 47)"
      by (simp only:)
    have "p * f \<le> 2 powi (- 47 * int i) * 2 powi (- 47)"
      using Suc.prems that f by (intro mult_mono) simp_all
    then show ?thesis by (simp only: split)
  qed
  have a: "0 \<le> fl (p * f)" using pf0 by (rule fl_nonneg)
  have b: "fl (p * f) \<le> 2 powi (- 47 * int (Suc i))" if "Suc i \<le> 22"
  proof -
    have "- 1074 \<le> - 47 * int (Suc i)" using that by simp
    moreover have "i \<le> 22" using that by simp
    ultimately show ?thesis using pf0 bound by (intro fl_le_pow2) simp_all
  qed
  have c: "fl (p * f) = 0" if "23 \<le> Suc i"
  proof (cases "i = 22")
    case True
    then have "p * f \<le> 2 powi (- 1081)" using bound by simp
    also have "\<dots> < (2::real) powi (- 1075)"
      by (intro power_int_strict_increasing) simp_all
    finally show ?thesis using pf0 by (intro fl_underflow)
  next
    case False
    with that have "23 \<le> i" by simp
    then have "p * f = 0" using Suc.prems by simp
    then show ?thesis using fl_underflow [of 0] by (simp only:) simp
  qed
  have "k = 25 - Suc i" "Suc i \<le> 25" using Suc.hyps(2) lt by simp_all
  from Suc.hyps(1) [OF this a] b c show ?case
    by (simp only: step) blast
qed

text \<open>
  Claim C10 says that for all integer inputs with \<open>targetInDeck \<ge> 1\<close> and
  \<open>1 \<le> draws \<le> total - targetInDeck\<close> the zero-hit ratio is greater than 0.  The
  product is computed in doubles: with \<open>total = 2 ^ 53\<close>, \<open>targetInDeck = 2 ^ 53 - 25\<close>
  and \<open>draws = 25\<close>, three integers that are doubles and meet these conditions, the
  running product underflows and the call returns 0.
\<close>

theorem zeroHit_positive_counterexample:
  "(1::int) \<le> 2 ^ 53 - 25 \<and> (1::int) \<le> 25 \<and> (25::int) \<le> 2 ^ 53 - (2 ^ 53 - 25)
   \<and> zeroHitHypergeometricRatio_double (Fin (2 ^ 53)) (Fin (2 ^ 53 - 25)) (Fin 25) = Some (Fin 0)"
proof -
  have "d_sub (Fin (2 ^ 53)) (Fin (2 ^ 53 - 25)) = Fin 25"
    using dbl_of_nat [of 25] by simp
  moreover have "zeroHit_loop_double (Fin 25) (Fin (2 ^ 53)) (Fin 25) 0 (Fin 1) = Some (Fin 0)"
    by (rule zeroHit_loop_double_underflow) simp_all
  ultimately have "zeroHitHypergeometricRatio_double (Fin (2 ^ 53)) (Fin (2 ^ 53 - 25)) (Fin 25)
      = Some (Fin 0)"
    unfolding zeroHitHypergeometricRatio_double_def by simp
  then show ?thesis by simp
qed

text \<open>
  Claim C10, amended.  For all integer inputs with \<open>total \<le> 1000\<close> (the decks of the
  application have 36 and 40 cards), \<open>targetInDeck \<ge> 1\<close> and
  \<open>1 \<le> draws \<le> total - targetInDeck\<close> the zero-hit ratio computed in doubles is greater
  than 0 and at most 1, and in every round \<open>i < draws\<close> the loop multiplies its running
  product by the factor \<open>(nonTargets - i) / (total - i)\<close> computed in doubles, which is
  greater than 0 and at most 1; so on integer inputs with \<open>total \<le> 1000\<close>,
  \<open>targetInDeck \<ge> 1\<close> and \<open>draws \<ge> 1\<close> the function returns 0 only when \<open>draws\<close> exceeds
  \<open>total - targetInDeck\<close>.
\<close>

theorem zeroHit_positive:
  fixes total' targetInDeck draws :: int
  assumes "total' \<le> 1000" and "1 \<le> targetInDeck" and "1 \<le> draws"
  shows "(draws \<le> total' - targetInDeck \<longrightarrow>
           (\<exists>p. zeroHitHypergeometricRatio_double (Fin (of_int total'))
                  (Fin (of_int targetInDeck)) (Fin (of_int draws)) = Some (Fin p)
                \<and> 0 < p \<and> p \<le> 1)
         \<and> (\<forall>i. 0 \<le> i \<and> i < draws \<longrightarrow>
               (\<exists>f. factor_double (Fin (of_int (total' - targetInDeck))) (Fin (of_int total'))
                      (nat i) = Fin f \<and> 0 < f \<and> f \<le> 1
                  \<and> (\<forall>p. zeroHit_loop_double (Fin (of_int (total' - targetInDeck)))
                             (Fin (of_int total')) (Fin (of_int draws)) (nat i) p =
                           zeroHit_loop_double (Fin (of_int (total' - targetInDeck)))
                             (Fin (of_int total')) (Fin (of_int draws)) (nat i + 1)
                             (d_mul p (Fin f))))))
       \<and> (zeroHitHypergeometricRatio_double (Fin (of_int total')) (Fin (of_int targetInDeck))
             (Fin (of_int draws)) = Some (Fin 0) \<longrightarrow> total' - targetInDeck < draws)"
proof -
  define N t d where "N = nat total'" and "t = nat targetInDeck" and "d = nat draws"
  have pos: "\<exists>p. zeroHitHypergeometricRatio_double (Fin (of_int total'))
                  (Fin (of_int targetInDeck)) (Fin (of_int draws)) = Some (Fin p)
                \<and> 0 < p \<and> p \<le> 1"
    if le: "draws \<le> total' - targetInDeck"
  proof -
    have conv: "of_int total' = real N" "of_int targetInDeck = real t" "of_int draws = real d"
      using assms le by (simp_all add: N_def t_def d_def)
    have "1 \<le> t" "1 \<le> d" "d + t \<le> N" "N \<le> 1000"
      using assms le by (simp_all add: N_def t_def d_def)
    from zeroHit_double_nat [OF this] show ?thesis
      by (simp only: conv) blast
  qed
  have fac: "\<exists>f. factor_double (Fin (of_int (total' - targetInDeck))) (Fin (of_int total'))
                      (nat i) = Fin f \<and> 0 < f \<and> f \<le> 1
                  \<and> (\<forall>p. zeroHit_loop_double (Fin (of_int (total' - targetInDeck)))
                             (Fin (of_int total')) (Fin (of_int draws)) (nat i) p =
                           zeroHit_loop_double (Fin (of_int (total' - targetInDeck)))
                             (Fin (of_int total')) (Fin (of_int draws)) (nat i + 1)
                             (d_mul p (Fin f)))"
    if le: "draws \<le> total' - targetInDeck" and i: "0 \<le> i" "i < draws" for i
  proof -
    have conv: "of_int total' = real N" "of_int (total' - targetInDeck) = real (N - t)"
      "of_int draws = real d"
      using assms le by (simp_all add: N_def t_def d_def)
    have "nat i < d" "d \<le> N - t" "N - t \<le> N" "N \<le> 1000"
      using assms le i by (simp_all add: N_def t_def d_def)
    from zeroHit_loop_double_multiplies [OF this] show ?thesis
      by (simp only: conv)
  qed
  from pos fac show ?thesis by fastforce
qed

theorem zeroHit_positive_witness:
  "(40::int) \<le> 1000 \<and> (1::int) \<le> 3 \<and> (1::int) \<le> 4 \<and> (4::int) \<le> 40 - 3 \<and>
   (\<exists>p. zeroHitHypergeometricRatio_double (Fin 40) (Fin 3) (Fin 4) = Some (Fin p) \<and> 0 < p \<and> p \<le> 1)"
  using zeroHit_positive [of 40 3 4] by simp

end
